theory Spec2Isabelle
  imports Main "HOL-Library.Word" "HOL-Library.AList" "HOL-Library.Sublist"
begin

unbundle bit_operations_syntax

section \<open>JavaScript strings\<close>

text \<open>
  A JavaScript string is a sequence of 16-bit code units. String literals of the source
  are written \<open>lit ''...''\<close>.
\<close>

type_synonym jsstring = "16 word list"

definition lit :: "string \<Rightarrow> jsstring" where
  "lit s = map of_char s"

section \<open>JSON values, JSON.parse and JSON.stringify\<close>

text \<open>
  The platform's JSON codec, modelled after ECMA-262 (JSON.parse, JSON.stringify without
  indentation) and ECMA-404. An object is its list of own properties; a number is kept as
  the token that denotes it.
\<close>

datatype json =
    JNull
  | JBool bool
  | JNum jsstring
  | JStr jsstring
  | JArr "json list"
  | JObj "(jsstring \<times> json) list"

datatype token =
    TLBrace | TRBrace | TLBrack | TRBrack | TColon | TComma
  | TStr jsstring | TNum jsstring | TTrue | TFalse | TNull

subsection \<open>Lexical grammar\<close>

definition is_json_ws :: "16 word \<Rightarrow> bool" where
  "is_json_ws c \<longleftrightarrow> c = 0x20 \<or> c = 0x09 \<or> c = 0x0A \<or> c = 0x0D"

definition is_digit :: "16 word \<Rightarrow> bool" where
  "is_digit c \<longleftrightarrow> 0x30 \<le> c \<and> c \<le> 0x39"

definition hexval :: "16 word \<Rightarrow> nat option" where
  "hexval c =
     (if 0x30 \<le> c \<and> c \<le> 0x39 then Some (unat c - 0x30)
      else if 0x61 \<le> c \<and> c \<le> 0x66 then Some (unat c - 0x57)
      else if 0x41 \<le> c \<and> c \<le> 0x46 then Some (unat c - 0x37)
      else None)"

definition hex4 :: "16 word \<Rightarrow> 16 word \<Rightarrow> 16 word \<Rightarrow> 16 word \<Rightarrow> 16 word option" where
  "hex4 a b c d =
     (case (hexval a, hexval b, hexval c, hexval d) of
        (Some w, Some x, Some y, Some z) \<Rightarrow> Some (of_nat (4096 * w + 256 * x + 16 * y + z))
      | _ \<Rightarrow> None)"

text \<open>The single-character escapes \<open>\" \\ \/ \b \f \n \r \t\<close>.\<close>

definition unescape :: "16 word \<Rightarrow> 16 word option" where
  "unescape e =
     (if e = 0x22 then Some 0x22
      else if e = 0x5C then Some 0x5C
      else if e = 0x2F then Some 0x2F
      else if e = 0x62 then Some 0x08
      else if e = 0x66 then Some 0x0C
      else if e = 0x6E then Some 0x0A
      else if e = 0x72 then Some 0x0D
      else if e = 0x74 then Some 0x09
      else None)"

text \<open>
  \<open>lex_string\<close> reads a string token after its opening quote: the decoded string and
  the text after the closing quote. A control character below U+0020, an unknown escape
  and a missing closing quote are errors.
\<close>

fun lex_string :: "jsstring \<Rightarrow> (jsstring \<times> jsstring) option" where
  "lex_string [] = None"
| "lex_string (c # cs) =
     (if c = 0x22 then Some ([], cs)
      else if c = 0x5C then
        (case cs of
           [] \<Rightarrow> None
         | e # es \<Rightarrow>
             if e = 0x75 then
               (case es of
                  h1 # h2 # h3 # h4 # r \<Rightarrow>
                    (case hex4 h1 h2 h3 h4 of
                       None \<Rightarrow> None
                     | Some u \<Rightarrow> map_option (apfst ((#) u)) (lex_string r))
                | _ \<Rightarrow> None)
             else
               (case unescape e of
                  None \<Rightarrow> None
                | Some u \<Rightarrow> map_option (apfst ((#) u)) (lex_string es)))
      else if c < 0x20 then None
      else map_option (apfst ((#) c)) (lex_string cs))"

text \<open>
  A number token: \<open>-? (0 | [1-9][0-9]*) (. [0-9]+)? ([eE] [+-]? [0-9]+)?\<close>.
\<close>

definition is_num_char :: "16 word \<Rightarrow> bool" where
  "is_num_char c \<longleftrightarrow>
     is_digit c \<or> c = 0x2B \<or> c = 0x2D \<or> c = 0x2E \<or> c = 0x65 \<or> c = 0x45"

definition exp_part :: "jsstring \<Rightarrow> bool" where
  "exp_part s =
     (case s of
        [] \<Rightarrow> True
      | e # r \<Rightarrow>
          (e = 0x65 \<or> e = 0x45) \<and>
          (let ds = (case r of
                       [] \<Rightarrow> []
                     | sg # r' \<Rightarrow> if sg = 0x2B \<or> sg = 0x2D then r' else r)
           in ds \<noteq> [] \<and> list_all is_digit ds))"

definition frac_part :: "jsstring \<Rightarrow> bool" where
  "frac_part s =
     (case s of
        [] \<Rightarrow> True
      | p # r \<Rightarrow>
          if p = 0x2E then
            (case r of
               [] \<Rightarrow> False
             | d # r' \<Rightarrow> is_digit d \<and> exp_part (dropWhile is_digit r'))
          else exp_part s)"

definition int_part :: "jsstring \<Rightarrow> bool" where
  "int_part s =
     (case s of
        [] \<Rightarrow> False
      | d # r \<Rightarrow>
          if d = 0x30 then frac_part r
          else is_digit d \<and> frac_part (dropWhile is_digit r))"

definition is_number :: "jsstring \<Rightarrow> bool" where
  "is_number s = (case s of [] \<Rightarrow> False | c # r \<Rightarrow> if c = 0x2D then int_part r else int_part s)"

lemma lex_string_shorter: "lex_string cs = Some (s, r) \<Longrightarrow> length r < Suc (length cs)"
proof (induction cs arbitrary: s r rule: lex_string.induct)
  case 1
  then show ?case by simp
next
  case (2 c cs)
  then show ?case
    by (fastforce split: if_splits list.splits option.splits)
qed

function lexer :: "jsstring \<Rightarrow> token list option" where
  "lexer [] = Some []"
| "lexer (c # cs) =
     (if is_json_ws c then lexer cs
      else if c = 0x7B then map_option ((#) TLBrace) (lexer cs)
      else if c = 0x7D then map_option ((#) TRBrace) (lexer cs)
      else if c = 0x5B then map_option ((#) TLBrack) (lexer cs)
      else if c = 0x5D then map_option ((#) TRBrack) (lexer cs)
      else if c = 0x3A then map_option ((#) TColon) (lexer cs)
      else if c = 0x2C then map_option ((#) TComma) (lexer cs)
      else if c = 0x22 then
        (case lex_string cs of
           None \<Rightarrow> None
         | Some (s, r) \<Rightarrow> map_option ((#) (TStr s)) (lexer r))
      else if c = 0x2D \<or> is_digit c then
        (if is_number (c # takeWhile is_num_char cs)
         then map_option ((#) (TNum (c # takeWhile is_num_char cs)))
                (lexer (dropWhile is_num_char cs))
         else None)
      else if take 4 (c # cs) = lit ''true'' then map_option ((#) TTrue) (lexer (drop 3 cs))
      else if take 5 (c # cs) = lit ''false'' then map_option ((#) TFalse) (lexer (drop 4 cs))
      else if take 4 (c # cs) = lit ''null'' then map_option ((#) TNull) (lexer (drop 3 cs))
      else None)"
  by pat_completeness auto
termination
proof (relation "measure length")
  fix c :: "16 word" and cs x2 s r
  assume "lex_string cs = Some x2" "(s, r) = x2"
  then show "(r, c # cs) \<in> measure length"
    using lex_string_shorter [of cs s r] by simp
next
  fix c :: "16 word" and cs
  show "(dropWhile is_num_char cs, c # cs) \<in> measure length"
    by (simp add: length_dropWhile_le le_imp_less_Suc)
qed auto

subsection \<open>Syntactic grammar\<close>

text \<open>
  The parser reads the tokens from left to right with a stack of the arrays and objects
  that are still open. \<open>FArr es\<close> is an open array with the elements \<open>es\<close> read so far;
  \<open>FObj ms k\<close> is an open object with the members \<open>ms\<close> read so far, reading the value of
  key \<open>k\<close>. A key that occurs twice keeps its place and takes the later value.
\<close>

datatype frame = FArr "json list" | FObj "(jsstring \<times> json) list" jsstring

datatype pstate =
    PValue "frame list"
  | PArrFirst "frame list"
  | PArrNext "json list" "frame list"
  | PObjFirst "frame list"
  | PObjKey "(jsstring \<times> json) list" "frame list"
  | PObjColon "(jsstring \<times> json) list" jsstring "frame list"
  | PObjNext "(jsstring \<times> json) list" "frame list"
  | PDone json

fun complete :: "json \<Rightarrow> frame list \<Rightarrow> pstate" where
  "complete v [] = PDone v"
| "complete v (FArr es # fs) = PArrNext (es @ [v]) fs"
| "complete v (FObj ms k # fs) = PObjNext (AList.update k v ms) fs"

fun value_start :: "frame list \<Rightarrow> token \<Rightarrow> pstate option" where
  "value_start fs TNull = Some (complete JNull fs)"
| "value_start fs TTrue = Some (complete (JBool True) fs)"
| "value_start fs TFalse = Some (complete (JBool False) fs)"
| "value_start fs (TNum n) = Some (complete (JNum n) fs)"
| "value_start fs (TStr s) = Some (complete (JStr s) fs)"
| "value_start fs TLBrack = Some (PArrFirst fs)"
| "value_start fs TLBrace = Some (PObjFirst fs)"
| "value_start fs _ = None"

fun step :: "pstate \<Rightarrow> token \<Rightarrow> pstate option" where
  "step (PValue fs) t = value_start fs t"
| "step (PArrFirst fs) t =
     (if t = TRBrack then Some (complete (JArr []) fs) else value_start (FArr [] # fs) t)"
| "step (PArrNext es fs) t =
     (if t = TComma then Some (PValue (FArr es # fs))
      else if t = TRBrack then Some (complete (JArr es) fs)
      else None)"
| "step (PObjFirst fs) t =
     (case t of
        TRBrace \<Rightarrow> Some (complete (JObj []) fs)
      | TStr k \<Rightarrow> Some (PObjColon [] k fs)
      | _ \<Rightarrow> None)"
| "step (PObjKey ms fs) t = (case t of TStr k \<Rightarrow> Some (PObjColon ms k fs) | _ \<Rightarrow> None)"
| "step (PObjColon ms k fs) t = (if t = TColon then Some (PValue (FObj ms k # fs)) else None)"
| "step (PObjNext ms fs) t =
     (if t = TComma then Some (PObjKey ms fs)
      else if t = TRBrace then Some (complete (JObj ms) fs)
      else None)"
| "step (PDone v) t = None"

fun run :: "pstate \<Rightarrow> token list \<Rightarrow> pstate option" where
  "run st [] = Some st"
| "run st (t # ts) = (case step st t of None \<Rightarrow> None | Some st' \<Rightarrow> run st' ts)"

text \<open>\<open>JSON.parse\<close>: \<open>None\<close> is the SyntaxError it throws.\<close>

definition JSON_parse :: "jsstring \<Rightarrow> json option" where
  "JSON_parse text =
     (case lexer text of
        None \<Rightarrow> None
      | Some ts \<Rightarrow> (case run (PValue []) ts of Some (PDone v) \<Rightarrow> Some v | _ \<Rightarrow> None))"

subsection \<open>Serialisation\<close>

definition hexdigit :: "nat \<Rightarrow> 16 word" where
  "hexdigit n = (if n < 10 then of_nat (0x30 + n) else of_nat (0x57 + n))"

definition unicode_escape :: "16 word \<Rightarrow> jsstring" where
  "unicode_escape c =
     [0x5C, 0x75, hexdigit (unat c div 4096), hexdigit (unat c div 256 mod 16),
      hexdigit (unat c div 16 mod 16), hexdigit (unat c mod 16)]"

definition is_high_surrogate :: "16 word \<Rightarrow> bool" where
  "is_high_surrogate c \<longleftrightarrow> 0xD800 \<le> c \<and> c \<le> 0xDBFF"

definition is_low_surrogate :: "16 word \<Rightarrow> bool" where
  "is_low_surrogate c \<longleftrightarrow> 0xDC00 \<le> c \<and> c \<le> 0xDFFF"

text \<open>One code point that is not a surrogate pair, as \<open>QuoteJSONString\<close> writes it.\<close>

definition escape_unit :: "16 word \<Rightarrow> jsstring" where
  "escape_unit c =
     (if c = 0x08 then [0x5C, 0x62]
      else if c = 0x09 then [0x5C, 0x74]
      else if c = 0x0A then [0x5C, 0x6E]
      else if c = 0x0C then [0x5C, 0x66]
      else if c = 0x0D then [0x5C, 0x72]
      else if c = 0x22 then [0x5C, 0x22]
      else if c = 0x5C then [0x5C, 0x5C]
      else if c < 0x20 \<or> is_high_surrogate c \<or> is_low_surrogate c then unicode_escape c
      else [c])"

fun quote_body :: "jsstring \<Rightarrow> jsstring" where
  "quote_body [] = []"
| "quote_body [c] = escape_unit c"
| "quote_body (c # d # ds) =
     (if is_high_surrogate c \<and> is_low_surrogate d then c # d # quote_body ds
      else escape_unit c @ quote_body (d # ds))"

definition QuoteJSONString :: "jsstring \<Rightarrow> jsstring" where
  "QuoteJSONString s = 0x22 # quote_body s @ [0x22]"

fun join :: "'a list \<Rightarrow> 'a list list \<Rightarrow> 'a list" where
  "join sep [] = []"
| "join sep [x] = x"
| "join sep (x # y # ys) = x @ sep @ join sep (y # ys)"

fun JSON_stringify :: "json \<Rightarrow> jsstring" where
  "JSON_stringify JNull = lit ''null''"
| "JSON_stringify (JBool b) = (if b then lit ''true'' else lit ''false'')"
| "JSON_stringify (JNum n) = n"
| "JSON_stringify (JStr s) = QuoteJSONString s"
| "JSON_stringify (JArr vs) = 0x5B # join [0x2C] (map JSON_stringify vs) @ [0x5D]"
| "JSON_stringify (JObj ms) =
     0x7B # join [0x2C] (map (\<lambda>m. QuoteJSONString (fst m) @ 0x3A # JSON_stringify (snd m)) ms)
       @ [0x7D]"

subsection \<open>Well-formed values\<close>

text \<open>
  \<open>tokens v\<close> is the token sequence of the text that \<open>JSON_stringify\<close> writes for \<open>v\<close>.
  A value is well formed when no object has a key twice and every number is a number
  token; every value that \<open>JSON_parse\<close> returns is well formed, and a well-formed value is
  read back from its serialisation.
\<close>

fun tokens :: "json \<Rightarrow> token list" where
  "tokens JNull = [TNull]"
| "tokens (JBool b) = [if b then TTrue else TFalse]"
| "tokens (JNum n) = [TNum n]"
| "tokens (JStr s) = [TStr s]"
| "tokens (JArr vs) = TLBrack # join [TComma] (map tokens vs) @ [TRBrack]"
| "tokens (JObj ms) =
     TLBrace # join [TComma] (map (\<lambda>m. TStr (fst m) # TColon # tokens (snd m)) ms) @ [TRBrace]"

definition wf_num :: "jsstring \<Rightarrow> bool" where
  "wf_num n =
     (case n of
        [] \<Rightarrow> False
      | c # cs \<Rightarrow> (c = 0x2D \<or> is_digit c) \<and> list_all is_num_char cs \<and> is_number n)"

fun wf_json :: "json \<Rightarrow> bool" where
  "wf_json (JNum n) = wf_num n"
| "wf_json (JArr vs) = list_all wf_json vs"
| "wf_json (JObj ms) = (distinct (map fst ms) \<and> list_all (\<lambda>m. wf_json (snd m)) ms)"
| "wf_json _ = True"

definition sep_ok :: "jsstring \<Rightarrow> bool" where
  "sep_ok r = (case r of [] \<Rightarrow> True | c # _ \<Rightarrow> \<not> is_num_char c)"

fun wf_token :: "token \<Rightarrow> bool" where
  "wf_token (TNum n) = wf_num n"
| "wf_token _ = True"

fun wf_frame :: "frame \<Rightarrow> bool" where
  "wf_frame (FArr es) = list_all wf_json es"
| "wf_frame (FObj ms k) = wf_json (JObj ms)"

fun wf_pstate :: "pstate \<Rightarrow> bool" where
  "wf_pstate (PValue fs) = list_all wf_frame fs"
| "wf_pstate (PArrFirst fs) = list_all wf_frame fs"
| "wf_pstate (PArrNext es fs) = (list_all wf_json es \<and> list_all wf_frame fs)"
| "wf_pstate (PObjFirst fs) = list_all wf_frame fs"
| "wf_pstate (PObjKey ms fs) = (wf_json (JObj ms) \<and> list_all wf_frame fs)"
| "wf_pstate (PObjColon ms k fs) = (wf_json (JObj ms) \<and> list_all wf_frame fs)"
| "wf_pstate (PObjNext ms fs) = (wf_json (JObj ms) \<and> list_all wf_frame fs)"
| "wf_pstate (PDone v) = wf_json v"

section \<open>The configuration store's data model\<close>

text \<open>
  The persistent slot holds a JSON object that maps a profile name to a profile, and a
  profile is an object whose properties are strings (the application writes \<open>ip\<close>,
  \<open>user\<close>, \<open>port\<close> and \<open>keyPath\<close>). \<open>as_configs\<close> reads a parsed document as such a
  mapping. A document of another shape (an array, a number, a profile with a property that
  is not a string) is outside the data model: JavaScript has no such check and would go on
  with a value that is not a mapping of profiles, and the operations below stop there with
  \<open>NotAConfigStore\<close>.

  A mapping is the list of its entries in the order in which the properties were created;
  \<open>AList.update\<close> is the assignment of a property (a new name goes last, a present
  name keeps its place) and \<open>AList.delete\<close> is \<open>delete obj[k]\<close>. JavaScript
  enumerates names that are array indices before the others; the model does not, and the
  statements about mappings below are about \<open>map_of\<close> and the set of names, which do not
  depend on the order.
\<close>

type_synonym profile = "(jsstring \<times> jsstring) list"

type_synonym configs = "(jsstring \<times> profile) list"

fun as_fields :: "(jsstring \<times> json) list \<Rightarrow> profile option" where
  "as_fields [] = Some []"
| "as_fields ((k, JStr s) # ms) = map_option ((#) (k, s)) (as_fields ms)"
| "as_fields (_ # ms) = None"

fun as_profile :: "json \<Rightarrow> profile option" where
  "as_profile (JObj ms) = as_fields ms"
| "as_profile _ = None"

fun as_entries :: "(jsstring \<times> json) list \<Rightarrow> configs option" where
  "as_entries [] = Some []"
| "as_entries ((n, v) # ms) =
     (case as_profile v of
        None \<Rightarrow> None
      | Some p \<Rightarrow> map_option ((#) (n, p)) (as_entries ms))"

fun as_configs :: "json \<Rightarrow> configs option" where
  "as_configs (JObj ms) = as_entries ms"
| "as_configs _ = None"

definition of_profile :: "profile \<Rightarrow> json" where
  "of_profile p = JObj (map (\<lambda>f. (fst f, JStr (snd f))) p)"

definition of_configs :: "configs \<Rightarrow> json" where
  "of_configs c = JObj (map (\<lambda>e. (fst e, of_profile (snd e))) c)"

definition wf_configs :: "configs \<Rightarrow> bool" where
  "wf_configs c \<longleftrightarrow> distinct (map fst c) \<and> list_all (\<lambda>e. distinct (map fst (snd e))) c"

text \<open>
  A property read \<open>obj[k]\<close> on a parsed mapping finds an own property, or else a member
  that every object inherits from \<open>Object.prototype\<close>, or else \<open>undefined\<close>. An inherited
  member is a function (for \<open>__proto__\<close> the prototype itself): a truthy value that has
  none of the properties \<open>ip\<close>, \<open>user\<close>, \<open>port\<close>, \<open>keyPath\<close>.
\<close>

definition Object_prototype :: "jsstring list" where
  "Object_prototype =
     [lit ''constructor'', lit ''hasOwnProperty'', lit ''isPrototypeOf'',
      lit ''propertyIsEnumerable'', lit ''toLocaleString'', lit ''toString'',
      lit ''valueOf'', lit ''__proto__'', lit ''__defineGetter__'',
      lit ''__defineSetter__'', lit ''__lookupGetter__'', lit ''__lookupSetter__'']"

datatype property = Undefined | Own profile | Inherited

definition js_get :: "configs \<Rightarrow> jsstring \<Rightarrow> property" where
  "js_get obj k =
     (case map_of obj k of
        Some v \<Rightarrow> Own v
      | None \<Rightarrow> if k \<in> set Object_prototype then Inherited else Undefined)"

text \<open>\<open>data.f || d\<close> for a property \<open>f\<close> that is a string or absent.\<close>

definition or_default :: "jsstring option \<Rightarrow> jsstring \<Rightarrow> jsstring" where
  "or_default x d = (case x of None \<Rightarrow> d | Some v \<Rightarrow> if v = [] then d else v)"

section \<open>The application state and its handlers\<close>

text \<open>
  The state is the component's \<open>useState\<close> cells together with the browser's
  \<open>localStorage\<close> and the texts shown by \<open>alert\<close>. The storage is taken to have room for
  every write. \<open>modalContent\<close> holds the texts of the three code blocks of the rendered
  instructions, \<open>None\<close> being \<open>null\<close>. A handler that throws has set no state before
  it throws, so its result is the error alone.
\<close>

record instructions =
  publicKeyPath :: jsstring
  debianCommands :: jsstring
  removeHostKeyCommand :: jsstring

record app =
  localStorage :: "jsstring \<rightharpoonup> jsstring"
  mode :: jsstring
  configs :: configs
  selectedConfig :: jsstring
  configName :: jsstring
  pixelIp :: jsstring
  pixelUser :: jsstring
  sshPort :: jsstring
  sshKeyPaths :: jsstring
  availableKeys :: "jsstring list"
  selectedKey :: jsstring
  isModalOpen :: bool
  modalContent :: "instructions option"
  alerts :: "jsstring list"

datatype error = SyntaxError | NotAConfigStore

definition slot :: jsstring where
  "slot = lit ''ssh-vnc-configs-mui''"

definition initial :: "(jsstring \<rightharpoonup> jsstring) \<Rightarrow> app" where
  "initial ls =
     \<lparr>localStorage = ls,
      mode = (case ls (lit ''themeMode'') of
                None \<Rightarrow> lit ''light''
              | Some savedMode \<Rightarrow>
                  if savedMode = lit ''light'' \<or> savedMode = lit ''dark'' then savedMode
                  else lit ''light''),
      configs = [], selectedConfig = [], configName = [], pixelIp = [],
      pixelUser = [], sshPort = lit ''22'', sshKeyPaths = [], availableKeys = [],
      selectedKey = [], isModalOpen = False, modalContent = None, alerts = []\<rparr>"

text \<open>\<open>handleThemeChange\<close>: \<open>None\<close> is \<open>null\<close>, the toggle that is already chosen.\<close>

definition handleThemeChange :: "jsstring option \<Rightarrow> app \<Rightarrow> app" where
  "handleThemeChange newMode s =
     (case newMode of
        None \<Rightarrow> s
      | Some m \<Rightarrow> s\<lparr>mode := m, localStorage := (localStorage s)(lit ''themeMode'' \<mapsto> m)\<rparr>)"

text \<open>The effect run once after the first render (lines 127-130).\<close>

definition mount_effect :: "app \<Rightarrow> error + app" where
  "mount_effect s =
     (case localStorage s slot of
        None \<Rightarrow> Inr s
      | Some savedConfigs \<Rightarrow>
          if savedConfigs = [] then Inr s
          else (case JSON_parse savedConfigs of
                  None \<Rightarrow> Inl SyntaxError
                | Some v \<Rightarrow>
                    (case as_configs v of
                       None \<Rightarrow> Inl NotAConfigStore
                     | Some c \<Rightarrow> Inr (s\<lparr>configs := c\<rparr>))))"

text \<open>
  \<open>loadConfigsFromStorage\<close> returns the parsed mapping and the state after
  \<open>setConfigs(parsed)\<close>. \<open>saved ? JSON.parse(saved) : {}\<close>: an absent slot (\<open>null\<close>) and the
  empty string are falsy.
\<close>

definition loadConfigsFromStorage :: "app \<Rightarrow> error + configs \<times> app" where
  "loadConfigsFromStorage s =
     (case localStorage s slot of
        None \<Rightarrow> Inr ([], s\<lparr>configs := []\<rparr>)
      | Some saved \<Rightarrow>
          if saved = [] then Inr ([], s\<lparr>configs := []\<rparr>)
          else (case JSON_parse saved of
                  None \<Rightarrow> Inl SyntaxError
                | Some v \<Rightarrow>
                    (case as_configs v of
                       None \<Rightarrow> Inl NotAConfigStore
                     | Some parsed \<Rightarrow> Inr (parsed, s\<lparr>configs := parsed\<rparr>))))"

text \<open>What the load operation returns in a state.\<close>

definition stored :: "app \<Rightarrow> error + configs" where
  "stored s = (case loadConfigsFromStorage s of Inl e \<Rightarrow> Inl e | Inr (parsed, _) \<Rightarrow> Inr parsed)"

text \<open>
  The invariant of the data model: no profile is stored under the empty name, neither in
  the mapping held in the state nor in the mapping that the slot holds (when the slot
  holds one).
\<close>

definition names_nonempty :: "configs \<Rightarrow> bool" where
  "names_nonempty c \<longleftrightarrow> [] \<notin> fst ` set c"

definition store_inv :: "app \<Rightarrow> bool" where
  "store_inv s \<longleftrightarrow>
     names_nonempty (configs s)
     \<and> (case stored s of Inl e \<Rightarrow> True | Inr c \<Rightarrow> names_nonempty c)"

definition fill_form :: "jsstring \<Rightarrow> profile \<Rightarrow> app \<Rightarrow> app" where
  "fill_form name data s =
     s\<lparr>configName := name,
       pixelIp := or_default (map_of data (lit ''ip'')) [],
       pixelUser := or_default (map_of data (lit ''user'')) [],
       sshPort := or_default (map_of data (lit ''port'')) (lit ''22''),
       selectedKey := or_default (map_of data (lit ''keyPath'')) []\<rparr>"

definition handleLoadConfig :: "app \<Rightarrow> error + app" where
  "handleLoadConfig s =
     (if selectedConfig s = [] then Inr s
      else (case loadConfigsFromStorage s of
              Inl e \<Rightarrow> Inl e
            | Inr (parsed, s1) \<Rightarrow>
                (case js_get parsed (selectedConfig s) of
                   Undefined \<Rightarrow> Inr s1
                 | Own data \<Rightarrow> Inr (fill_form (selectedConfig s) data s1)
                 | Inherited \<Rightarrow> Inr (fill_form (selectedConfig s) [] s1))))"

definition handleSaveConfig :: "app \<Rightarrow> error + app" where
  "handleSaveConfig s =
     (if configName s = [] then Inr s
      else (case loadConfigsFromStorage s of
              Inl e \<Rightarrow> Inl e
            | Inr (currentConfigs, s1) \<Rightarrow>
                (let newConfigs =
                       AList.update (configName s)
                         [(lit ''ip'', pixelIp s), (lit ''user'', pixelUser s),
                          (lit ''port'', sshPort s), (lit ''keyPath'', selectedKey s)]
                         currentConfigs
                 in Inr (s1\<lparr>localStorage :=
                              (localStorage s1)(slot \<mapsto> JSON_stringify (of_configs newConfigs)),
                            configs := newConfigs,
                            alerts := alerts s1 @ [lit ''Saved '' @ [0x27] @ configName s @ [0x27]]\<rparr>))))"

text \<open>
  \<open>confirm\<close> is the browser's dialog: the user's answer to the question shown. It is
  asked only when a configuration is selected.
\<close>

definition handleDeleteConfig :: "(jsstring \<Rightarrow> bool) \<Rightarrow> app \<Rightarrow> error + app" where
  "handleDeleteConfig confirm s =
     (if selectedConfig s = []
         \<or> \<not> confirm (lit ''Delete '' @ [0x27] @ selectedConfig s @ [0x27] @ lit ''?'')
      then Inr s
      else (case loadConfigsFromStorage s of
              Inl e \<Rightarrow> Inl e
            | Inr (currentConfigs, s1) \<Rightarrow>
                (let currentConfigs' = AList.delete (selectedConfig s) currentConfigs
                 in Inr (s1\<lparr>localStorage :=
                              (localStorage s1)(slot \<mapsto> JSON_stringify (of_configs currentConfigs')),
                            configs := currentConfigs',
                            configName := [],
                            selectedConfig := []\<rparr>))))"

definition handleGenerateInstructions :: "app \<Rightarrow> app" where
  "handleGenerateInstructions s =
     (if pixelIp s = [] \<or> pixelUser s = [] \<or> sshPort s = [] \<or> selectedKey s = [] then s
      else s\<lparr>modalContent :=
               Some \<lparr>publicKeyPath = lit ''cat '' @ selectedKey s @ lit ''.pub'',
                     debianCommands =
                       join [0x0A]
                         [lit ''# 1. Install & Enable SSH'',
                          lit ''sudo apt update && sudo apt install -y openssh-server'',
                          lit ''sudo systemctl enable ssh --now'',
                          lit ''\<newline># 2. Add Your Public Key'',
                          lit ''echo 'PASTE_PUBLIC_KEY_HERE' >> ~/.ssh/authorized_keys'',
                          lit ''\<newline># 3. Set Permissions'',
                          lit ''chmod 700 ~/.ssh && chmod 600 ~/.ssh/authorized_keys''],
                     removeHostKeyCommand = lit ''ssh-keygen -R '' @ pixelIp s\<rparr>,
             isModalOpen := True\<rparr>)"

subsection \<open>The list of available keys\<close>

text \<open>
  \<open>String.prototype.trim\<close> removes white space and line terminators from both ends;
  \<open>split('\n')\<close> cuts at every line feed, so a text with \<open>n\<close> line feeds has \<open>n + 1\<close>
  pieces.
\<close>

definition is_js_space :: "16 word \<Rightarrow> bool" where
  "is_js_space c \<longleftrightarrow>
     c = 0x09 \<or> c = 0x0A \<or> c = 0x0B \<or> c = 0x0C \<or> c = 0x0D \<or> c = 0x20 \<or> c = 0xA0
     \<or> c = 0x1680 \<or> (0x2000 \<le> c \<and> c \<le> 0x200A) \<or> c = 0x2028 \<or> c = 0x2029
     \<or> c = 0x202F \<or> c = 0x205F \<or> c = 0x3000 \<or> c = 0xFEFF"

definition trim :: "jsstring \<Rightarrow> jsstring" where
  "trim s = rev (dropWhile is_js_space (rev (dropWhile is_js_space s)))"

fun split_from :: "16 word \<Rightarrow> jsstring \<Rightarrow> jsstring \<Rightarrow> jsstring list" where
  "split_from sep acc [] = [rev acc]"
| "split_from sep acc (c # cs) =
     (if c = sep then rev acc # split_from sep [] cs else split_from sep (c # acc) cs)"

definition split :: "16 word \<Rightarrow> jsstring \<Rightarrow> jsstring list" where
  "split sep s = split_from sep [] s"

text \<open>The effect run when \<open>sshKeyPaths\<close> changes (lines 132-135).\<close>

definition keys_effect :: "app \<Rightarrow> app" where
  "keys_effect s =
     s\<lparr>availableKeys := filter (\<lambda>p. length p > 0) (split 0x0A (trim (sshKeyPaths s)))\<rparr>"

subsection \<open>User actions\<close>

text \<open>
  What the user can do between two renders: choose an item of the two Selects (the empty
  item, or one of the names of \<open>configs\<close>, resp. one of \<open>availableKeys\<close>), type into a
  text field, press one of the four buttons (answering the question of Delete), close
  the modal, toggle the theme. Typing the key paths runs the effect that derives the
  available keys. When a handler throws, the state stays as it is.
\<close>

datatype action =
    SelectConfig jsstring
  | TypeConfigName jsstring
  | TypePixelIp jsstring
  | TypePixelUser jsstring
  | TypeSshPort jsstring
  | TypeSshKeyPaths jsstring
  | SelectKey jsstring
  | PressLoad
  | PressSave
  | PressDelete bool
  | PressGenerate
  | CloseModal
  | ToggleTheme "jsstring option"

fun offered :: "app \<Rightarrow> action \<Rightarrow> bool" where
  "offered s (SelectConfig n) = (n = [] \<or> n \<in> fst ` set (configs s))"
| "offered s (SelectKey k) = (k = [] \<or> k \<in> set (availableKeys s))"
| "offered s _ = True"

definition or_same :: "app \<Rightarrow> error + app \<Rightarrow> app" where
  "or_same s r = (case r of Inl e \<Rightarrow> s | Inr s' \<Rightarrow> s')"

fun act :: "action \<Rightarrow> app \<Rightarrow> app" where
  "act (SelectConfig n) s = s\<lparr>selectedConfig := n\<rparr>"
| "act (TypeConfigName v) s = s\<lparr>configName := v\<rparr>"
| "act (TypePixelIp v) s = s\<lparr>pixelIp := v\<rparr>"
| "act (TypePixelUser v) s = s\<lparr>pixelUser := v\<rparr>"
| "act (TypeSshPort v) s = s\<lparr>sshPort := v\<rparr>"
| "act (TypeSshKeyPaths v) s = keys_effect (s\<lparr>sshKeyPaths := v\<rparr>)"
| "act (SelectKey k) s = s\<lparr>selectedKey := k\<rparr>"
| "act PressLoad s = or_same s (handleLoadConfig s)"
| "act PressSave s = or_same s (handleSaveConfig s)"
| "act (PressDelete answer) s = or_same s (handleDeleteConfig (\<lambda>question. answer) s)"
| "act PressGenerate s = handleGenerateInstructions s"
| "act CloseModal s = s\<lparr>isModalOpen := False\<rparr>"
| "act (ToggleTheme newMode) s = handleThemeChange newMode s"

text \<open>
  The states that the application reaches when it starts on a storage whose slot it can
  read as a mapping with non-empty names (an absent slot is one).
\<close>

inductive reachable :: "app \<Rightarrow> bool" where
  start: "stored (initial ls) = Inr c \<Longrightarrow> names_nonempty c \<Longrightarrow> mount_effect (initial ls) = Inr s
            \<Longrightarrow> reachable (keys_effect s)"
| step: "reachable s \<Longrightarrow> offered s a \<Longrightarrow> reachable (act a s)"

text \<open>
  The invariant of the reachable states: the slot holds the mapping that the state holds,
  no name is empty, and the selected name is empty or one of the mapping.
\<close>

definition mirrored :: "app \<Rightarrow> bool" where
  "mirrored s \<longleftrightarrow>
     stored s = Inr (configs s) \<and> names_nonempty (configs s)
     \<and> (selectedConfig s = [] \<or> selectedConfig s \<in> fst ` set (configs s))"

subsection \<open>The specification of the available keys\<close>

text \<open>
  The specification's words for the derived list, to compare the effect with: the text
  without the white space around it, and its lines, that is the pieces without a line
  feed that give the text back when joined by line feeds.
\<close>

definition spec_trimmed :: "jsstring \<Rightarrow> jsstring \<Rightarrow> bool" where
  "spec_trimmed s t \<longleftrightarrow>
     (\<exists>l \<in> set (prefixes s). \<exists>r \<in> set (suffixes s).
        s = l @ t @ r \<and> list_all is_js_space l \<and> list_all is_js_space r)
     \<and> (t = [] \<or> \<not> is_js_space (hd t) \<and> \<not> is_js_space (last t))"

definition spec_lines :: "jsstring \<Rightarrow> jsstring list \<Rightarrow> bool" where
  "spec_lines t ps \<longleftrightarrow> ps \<noteq> [] \<and> join [0x0A] ps = t \<and> list_all (\<lambda>p. 0x0A \<notin> set p) ps"

subsection \<open>Example states\<close>

definition form_empty_port :: app where
  "form_empty_port =
     (initial Map.empty)\<lparr>configName := lit ''n'', pixelIp := lit ''10.0.0.5'',
        pixelUser := lit ''pat'', sshPort := [], selectedKey := lit ''k''\<rparr>"

definition form_filled :: app where
  "form_filled =
     (initial Map.empty)\<lparr>configName := lit ''n'', pixelIp := lit ''10.0.0.5'',
        pixelUser := lit ''pat'', sshPort := lit ''2222'', selectedKey := lit ''k''\<rparr>"

definition store_two :: "jsstring \<rightharpoonup> jsstring" where
  \<open>store_two = [slot \<mapsto> lit ''{"n":{},"m":{"ip":"x"}}'']\<close>

section \<open>The JSON codec: reading back what was written\<close>

subsection \<open>String tokens\<close>

text \<open>A quoted string is read back as the string, whatever follows the closing quote.\<close>

lemma unat_hexdigit: "n < 16 \<Longrightarrow> unat (hexdigit n) = (if n < 10 then 48 + n else 87 + n)"
  unfolding hexdigit_def by (simp del: of_nat_add of_nat_numeral add: unat_of_nat)

lemma hexval_hexdigit: "n < 16 \<Longrightarrow> hexval (hexdigit n) = Some n"
  by (simp add: hexval_def word_le_nat_alt unat_hexdigit)

lemma nibbles: "4096 * (n div 4096) + 256 * (n div 256 mod 16) + 16 * (n div 16 mod 16) + n mod 16 = (n::nat)"
  using mod_mult2_eq [of n 256 16] mod_mult2_eq [of n 16 16] div_mult_mod_eq [of n 4096]
  by simp

lemma hex4_unicode_escape:
  "hex4 (hexdigit (unat c div 4096)) (hexdigit (unat c div 256 mod 16))
     (hexdigit (unat c div 16 mod 16)) (hexdigit (unat c mod 16)) = Some c"
proof -
  have "unat c < 65536" using unsigned_less [of c, where 'a=nat] by simp
  then have "unat c div 4096 < 16" by simp
  then show ?thesis
    by (simp add: hex4_def hexval_hexdigit nibbles)
qed


lemma lex_string_escape_unit:
  "lex_string (escape_unit c @ rest) = map_option (apfst ((#) c)) (lex_string rest)"
  by (simp add: escape_unit_def unicode_escape_def hex4_unicode_escape unescape_def)

lemma surrogate_literal:
  assumes "0xD800 \<le> (c :: 16 word)"
  shows "c \<noteq> 0x22" "c \<noteq> 0x5C" "\<not> c < 0x20"
  using assms by (auto simp add: word_le_nat_alt word_less_nat_alt)

lemma lex_string_quote_body:
  "lex_string (quote_body s @ 0x22 # r) = Some (s, r)"
proof (induction s rule: quote_body.induct)
  case 1
  show ?case by simp
next
  case (2 c)
  show ?case by (simp add: lex_string_escape_unit)
next
  case (3 c d ds)
  show ?case
  proof (cases "is_high_surrogate c \<and> is_low_surrogate d")
    case True
    then have "0xD800 \<le> c" "0xD800 \<le> d"
      by (auto simp add: is_high_surrogate_def is_low_surrogate_def word_le_nat_alt)
    with True 3 show ?thesis
      by (simp add: surrogate_literal)
  next
    case False
    then have "quote_body (c # d # ds) = escape_unit c @ quote_body (d # ds)"
      by auto
    then have "lex_string (quote_body (c # d # ds) @ 0x22 # r)
        = map_option (apfst ((#) c)) (lex_string (quote_body (d # ds) @ 0x22 # r))"
      by (simp only: append_assoc lex_string_escape_unit)
    also have "\<dots> = Some (c # d # ds, r)"
      using 3(2) [OF False] by simp
    finally show ?thesis .
  qed
qed

lemma lexer_QuoteJSONString:
  "lexer (QuoteJSONString s @ r) = map_option ((#) (TStr s)) (lexer r)"
  by (simp add: QuoteJSONString_def lex_string_quote_body is_json_ws_def)

subsection \<open>The tokens of a serialised value\<close>

lemma join_Cons: "join sep (x # xs) = x @ concat (map (\<lambda>y. sep @ y) xs)"
  by (induction sep xs arbitrary: x rule: join.induct) simp_all

lemma lexer_num:
  assumes "wf_num n" "sep_ok r"
  shows "lexer (n @ r) = map_option ((#) (TNum n)) (lexer r)"
proof -
  from assms(1) obtain c cs where n: "n = c # cs" and c: "c = 0x2D \<or> is_digit c"
    and cs: "list_all is_num_char cs" and num: "is_number (c # cs)"
    by (auto simp add: wf_num_def split: list.splits)
  from cs assms(2) have tw: "takeWhile is_num_char (cs @ r) = cs"
    and dw: "dropWhile is_num_char (cs @ r) = r"
    by (auto simp add: sep_ok_def list_all_iff takeWhile_append dropWhile_append takeWhile_eq_Nil_iff split: list.splits)
  from c have nows: "\<not> is_json_ws c" "c \<noteq> 0x7B" "c \<noteq> 0x7D" "c \<noteq> 0x5B" "c \<noteq> 0x5D" "c \<noteq> 0x3A" "c \<noteq> 0x2C" "c \<noteq> 0x22"
    by (auto simp add: is_json_ws_def is_digit_def)
  show ?thesis
    unfolding n using c nows num by (simp add: tw dw)
qed


lemma sep_ok_simps [simp]: "sep_ok []" "sep_ok (0x2C # r)" "sep_ok (0x5D # r)" "sep_ok (0x7D # r)"
  by (simp_all add: sep_ok_def is_num_char_def is_digit_def)

lemma lexer_punct [simp]:
  "lexer (0x2C # r) = map_option ((#) TComma) (lexer r)"
  "lexer (0x3A # r) = map_option ((#) TColon) (lexer r)"
  "lexer (0x5B # r) = map_option ((#) TLBrack) (lexer r)"
  "lexer (0x5D # r) = map_option ((#) TRBrack) (lexer r)"
  "lexer (0x7B # r) = map_option ((#) TLBrace) (lexer r)"
  "lexer (0x7D # r) = map_option ((#) TRBrace) (lexer r)"
  by (simp_all add: is_json_ws_def)

lemma lexer_join:
  assumes "\<And>x r. x \<in> set xs \<Longrightarrow> sep_ok r \<Longrightarrow> lexer (f x @ r) = map_option ((@) (g x)) (lexer r)"
    and "sep_ok r"
  shows "lexer (join [0x2C] (map f xs) @ r) = map_option ((@) (join [TComma] (map g xs))) (lexer r)"
  using assms
proof (induction xs)
  case Nil
  then show ?case by (cases "lexer r") simp_all
next
  case (Cons x xs)
  show ?case
  proof (cases xs)
    case Nil
    with Cons.prems show ?thesis by simp
  next
    case (Cons y ys)
    have ih: "lexer (join [0x2C] (map f xs) @ r) = map_option ((@) (join [TComma] (map g xs))) (lexer r)"
      using Cons.IH Cons.prems by simp
    have "lexer (join [0x2C] (map f (x # xs)) @ r) = lexer (f x @ 0x2C # join [0x2C] (map f xs) @ r)"
      using Cons by simp
    also have "\<dots> = map_option ((@) (g x)) (lexer (0x2C # join [0x2C] (map f xs) @ r))"
      using Cons.prems(1) [of x "0x2C # join [0x2C] (map f xs) @ r"] by simp
    also have "\<dots> = map_option ((@) (join [TComma] (map g (x # xs)))) (lexer r)"
      using Cons ih by (cases "lexer r") (simp_all del: lexer.simps)
    finally show ?thesis .
  qed
qed

lemma lexer_stringify:
  "wf_json v \<Longrightarrow> sep_ok r \<Longrightarrow> lexer (JSON_stringify v @ r) = map_option ((@) (tokens v)) (lexer r)"
proof (induction v arbitrary: r)
  case JNull
  show ?case by (cases "lexer r") (simp_all add: lit_def is_json_ws_def is_digit_def)
next
  case (JBool b)
  show ?case by (cases "lexer r") (simp_all add: lit_def is_json_ws_def is_digit_def)
next
  case (JNum n)
  then show ?case by (cases "lexer r") (simp_all add: lexer_num del: lexer.simps)
next
  case (JStr s)
  show ?case by (cases "lexer r") (simp_all add: lexer_QuoteJSONString del: lexer.simps)
next
  case (JArr vs)
  have "lexer (join [0x2C] (map JSON_stringify vs) @ 0x5D # r)
      = map_option ((@) (join [TComma] (map tokens vs))) (lexer (0x5D # r))"
    using JArr by (intro lexer_join) (auto simp add: list_all_iff)
  then show ?case
    by (cases "lexer r") (simp_all del: lexer.simps)
next
  case (JObj ms)
  have "lexer (join [0x2C] (map (\<lambda>m. QuoteJSONString (fst m) @ 0x3A # JSON_stringify (snd m)) ms) @ 0x7D # r)
      = map_option ((@) (join [TComma] (map (\<lambda>m. TStr (fst m) # TColon # tokens (snd m)) ms)))
          (lexer (0x7D # r))"
  proof (intro lexer_join)
    fix m r'
    assume m: "m \<in> set ms" and r': "sep_ok r'"
    obtain k v where kv: "m = (k, v)" by (cases m)
    with m JObj.prems have "wf_json v" by (auto simp add: list_all_iff)
    with m kv r' have "lexer (JSON_stringify v @ r') = map_option ((@) (tokens v)) (lexer r')"
      using JObj.IH [of m v r'] by simp
    then show "lexer ((QuoteJSONString (fst m) @ 0x3A # JSON_stringify (snd m)) @ r')
        = map_option ((@) (TStr (fst m) # TColon # tokens (snd m))) (lexer r')"
      by (cases "lexer r'") (simp_all add: kv lexer_QuoteJSONString del: lexer.simps)
  qed simp
  then show ?case
    by (cases "lexer r") (simp_all del: lexer.simps)
qed

subsection \<open>Parsing the tokens of a value\<close>

lemma run_ArrFirst:
  "run (PArrFirst fs) (tokens v @ ts) = run (PValue (FArr [] # fs)) (tokens v @ ts)"
  by (cases v) simp_all

lemma update_fresh: "k \<notin> fst ` set al \<Longrightarrow> AList.update k v al = al @ [(k, v)]"
  by (induction al) auto

lemma run_elements:
  assumes "\<And>v fs ts. v \<in> set vs \<Longrightarrow> run (PValue fs) (tokens v @ ts) = run (complete v fs) ts"
  shows "run (PArrNext es fs) (concat (map (\<lambda>v. TComma # tokens v) vs) @ TRBrack # ts)
       = run (complete (JArr (es @ vs)) fs) ts"
  using assms
proof (induction vs arbitrary: es)
  case Nil
  show ?case by simp
next
  case (Cons v vs)
  have "run (PArrNext es fs) (concat (map (\<lambda>v. TComma # tokens v) (v # vs)) @ TRBrack # ts)
      = run (PValue (FArr es # fs)) (tokens v @ concat (map (\<lambda>v. TComma # tokens v) vs) @ TRBrack # ts)"
    by simp
  also have "\<dots> = run (PArrNext (es @ [v]) fs) (concat (map (\<lambda>v. TComma # tokens v) vs) @ TRBrack # ts)"
    using Cons.prems [of v] by simp
  also have "\<dots> = run (complete (JArr ((es @ [v]) @ vs)) fs) ts"
    using Cons.prems by (intro Cons.IH) simp
  finally show ?case by simp
qed

lemma run_members:
  assumes "\<And>m fs ts. m \<in> set ms \<Longrightarrow> run (PValue fs) (tokens (snd m) @ ts) = run (complete (snd m) fs) ts"
    and "distinct (map fst (acc @ ms))"
  shows "run (PObjNext acc fs)
           (concat (map (\<lambda>m. TComma # TStr (fst m) # TColon # tokens (snd m)) ms) @ TRBrace # ts)
       = run (complete (JObj (acc @ ms)) fs) ts"
  using assms
proof (induction ms arbitrary: acc)
  case Nil
  show ?case by simp
next
  case (Cons m ms)
  let ?rest = "concat (map (\<lambda>m. TComma # TStr (fst m) # TColon # tokens (snd m)) ms) @ TRBrace # ts"
  from Cons.prems(2) have fresh: "fst m \<notin> fst ` set acc" by auto
  have "run (PObjNext acc fs)
          (concat (map (\<lambda>m. TComma # TStr (fst m) # TColon # tokens (snd m)) (m # ms)) @ TRBrace # ts)
      = run (PValue (FObj acc (fst m) # fs)) (tokens (snd m) @ ?rest)"
    by simp
  also have "\<dots> = run (PObjNext (acc @ [m]) fs) ?rest"
    using Cons.prems(1) [of m] fresh by (simp add: update_fresh)
  also have "\<dots> = run (complete (JObj ((acc @ [m]) @ ms)) fs) ts"
    using Cons.prems by (intro Cons.IH) simp_all
  finally show ?case by simp
qed

lemma run_tokens:
  "wf_json v \<Longrightarrow> run (PValue fs) (tokens v @ ts) = run (complete v fs) ts"
proof (induction v arbitrary: fs ts)
  case (JArr vs)
  show ?case
  proof (cases vs)
    case Nil
    then show ?thesis by simp
  next
    case (Cons v vs')
    have ih: "\<And>u fs ts. u \<in> set vs \<Longrightarrow> run (PValue fs) (tokens u @ ts) = run (complete u fs) ts"
      using JArr by (simp add: list_all_iff)
    let ?rest = "concat (map (\<lambda>v. TComma # tokens v) vs') @ TRBrack # ts"
    have "run (PValue fs) (tokens (JArr vs) @ ts) = run (PArrFirst fs) (tokens v @ ?rest)"
      using Cons by (simp add: join_Cons comp_def)
    also have "\<dots> = run (PArrNext [v] fs) ?rest"
      using ih [of v] Cons by (simp add: run_ArrFirst)
    also have "\<dots> = run (complete (JArr ([v] @ vs')) fs) ts"
      using ih Cons by (intro run_elements) simp
    finally show ?thesis using Cons by simp
  qed
next
  case (JObj ms)
  show ?case
  proof (cases ms)
    case Nil
    then show ?thesis by simp
  next
    case (Cons m ms')
    have ih: "\<And>m fs ts. m \<in> set ms \<Longrightarrow> run (PValue fs) (tokens (snd m) @ ts) = run (complete (snd m) fs) ts"
    proof -
      fix e fs ts
      assume e: "e \<in> set ms"
      obtain k v where kv: "e = (k, v)" by (cases e)
      have "v \<in> Basic_BNFs.snds e" by (simp add: kv)
      moreover have "wf_json v" using JObj.prems e kv by (auto simp add: list_all_iff)
      ultimately show "run (PValue fs) (tokens (snd e) @ ts) = run (complete (snd e) fs) ts"
        using JObj.IH [of e v fs ts] e by (simp add: kv)
    qed
    let ?rest = "concat (map (\<lambda>m. TComma # TStr (fst m) # TColon # tokens (snd m)) ms') @ TRBrace # ts"
    have "run (PValue fs) (tokens (JObj ms) @ ts) = run (PValue (FObj [] (fst m) # fs)) (tokens (snd m) @ ?rest)"
      using Cons by (simp add: join_Cons comp_def)
    also have "\<dots> = run (PObjNext [m] fs) ?rest"
      using ih [of m] Cons by simp
    also have "\<dots> = run (complete (JObj ([m] @ ms')) fs) ts"
      using ih Cons JObj.prems by (intro run_members) simp_all
    finally show ?thesis using Cons by simp
  qed
qed simp_all

text \<open>\<open>JSON.parse\<close> reads a well-formed value back from what \<open>JSON.stringify\<close> wrote.\<close>

theorem parse_stringify: "wf_json v \<Longrightarrow> JSON_parse (JSON_stringify v) = Some v"
  using lexer_stringify [of v "[]"] run_tokens [of v "[]" "[]"]
  by (simp add: JSON_parse_def)

subsection \<open>The values that the parser returns\<close>

lemma wf_num_takeWhile:
  "c = 0x2D \<or> is_digit c \<Longrightarrow> is_number (c # takeWhile is_num_char cs)
     \<Longrightarrow> wf_num (c # takeWhile is_num_char cs)"
  by (simp add: wf_num_def list_all_iff) (meson set_takeWhileD)

lemma lexer_step:
  assumes "lexer (c # cs) = Some ts"
  shows "\<exists>rest. length rest \<le> length cs \<and>
           (lexer rest = Some ts \<or> (\<exists>tok ts'. ts = tok # ts' \<and> wf_token tok \<and> lexer rest = Some ts'))"
proof -
  consider (ws) "is_json_ws c"
    | (punct) "\<not> is_json_ws c" "c = 0x7B \<or> c = 0x7D \<or> c = 0x5B \<or> c = 0x5D \<or> c = 0x3A \<or> c = 0x2C"
    | (str) "\<not> is_json_ws c" "c = 0x22"
    | (num) "\<not> is_json_ws c" "c = 0x2D \<or> is_digit c"
    | (other) "\<not> is_json_ws c" "\<not> (c = 0x7B \<or> c = 0x7D \<or> c = 0x5B \<or> c = 0x5D \<or> c = 0x3A \<or> c = 0x2C)"
        "c \<noteq> 0x22" "\<not> (c = 0x2D \<or> is_digit c)"
    by blast
  then show ?thesis
  proof cases
    case ws
    with assms show ?thesis by (intro exI [of _ cs]) simp
  next
    case punct
    with assms obtain tok ts' where "ts = tok # ts'" "wf_token tok" "lexer cs = Some ts'"
      by auto
    then show ?thesis by (intro exI [of _ cs]) simp
  next
    case str
    with assms obtain s r ts' where "lex_string cs = Some (s, r)" "lexer r = Some ts'" "ts = TStr s # ts'"
      by (auto simp add: is_json_ws_def split: option.splits)
    then show ?thesis
      using lex_string_shorter [of cs s r] by (intro exI [of _ r]) simp
  next
    case num
    then have "c \<noteq> 0x7B" "c \<noteq> 0x7D" "c \<noteq> 0x5B" "c \<noteq> 0x5D" "c \<noteq> 0x3A" "c \<noteq> 0x2C" "c \<noteq> 0x22"
      by (auto simp add: is_digit_def)
    with assms num obtain ts' where "is_number (c # takeWhile is_num_char cs)"
      "lexer (dropWhile is_num_char cs) = Some ts'" "ts = TNum (c # takeWhile is_num_char cs) # ts'"
      by (auto split: if_splits)
    with num show ?thesis
      by (intro exI [of _ "dropWhile is_num_char cs"]) (simp add: wf_num_takeWhile length_dropWhile_le)
  next
    case other
    with assms consider ts' where "lexer (drop 3 cs) = Some ts'" "ts = TTrue # ts' \<or> ts = TNull # ts'"
      | ts' where "lexer (drop 4 cs) = Some ts'" "ts = TFalse # ts'"
      by (auto split: if_splits)
    then show ?thesis
    proof cases
      case 1
      then show ?thesis by (intro exI [of _ "drop 3 cs"]) auto
    next
      case 2
      then show ?thesis by (intro exI [of _ "drop 4 cs"]) auto
    qed
  qed
qed

lemma lexer_wf: "lexer t = Some ts \<Longrightarrow> list_all wf_token ts"
proof (induction t arbitrary: ts rule: length_induct)
  case (1 t)
  show ?case
  proof (cases t)
    case Nil
    with 1 show ?thesis by simp
  next
    case (Cons c cs)
    with "1.prems" lexer_step [of c cs ts] obtain rest where
      "length rest \<le> length cs"
      "lexer rest = Some ts \<or> (\<exists>tok ts'. ts = tok # ts' \<and> wf_token tok \<and> lexer rest = Some ts')"
      by blast
    moreover have "\<And>ts'. lexer rest = Some ts' \<Longrightarrow> list_all wf_token ts'"
      using "1.IH" [rule_format, of rest] Cons \<open>length rest \<le> length cs\<close> by simp
    ultimately show ?thesis by auto
  qed
qed


lemma wf_update:
  "wf_json (JObj ms) \<Longrightarrow> wf_json v \<Longrightarrow> wf_json (JObj (AList.update k v ms))"
proof -
  assume ms: "wf_json (JObj ms)" and v: "wf_json v"
  have "list_all (\<lambda>m. wf_json (snd m)) (AList.update k v ms)"
    using ms v by (induction ms) auto
  with ms show ?thesis by (simp add: distinct_update)
qed

lemma complete_wf: "wf_json v \<Longrightarrow> list_all wf_frame fs \<Longrightarrow> wf_pstate (complete v fs)"
proof (cases "(v, fs)" rule: complete.cases)
  case (3 v' ms k fs')
  assume "wf_json v" "list_all wf_frame fs"
  with 3 show ?thesis using wf_update [of ms v k] by simp
qed simp_all

lemma value_start_wf:
  "value_start fs t = Some st \<Longrightarrow> wf_token t \<Longrightarrow> list_all wf_frame fs \<Longrightarrow> wf_pstate st"
  by (cases "(fs, t)" rule: value_start.cases) (auto simp add: complete_wf)

lemma step_wf: "step st t = Some st' \<Longrightarrow> wf_token t \<Longrightarrow> wf_pstate st \<Longrightarrow> wf_pstate st'"
proof (cases st)
  case (PValue fs)
  assume "step st t = Some st'" "wf_token t" "wf_pstate st"
  with PValue show ?thesis using value_start_wf [of fs t st'] by simp
next
  case (PArrFirst fs)
  assume "step st t = Some st'" "wf_token t" "wf_pstate st"
  with PArrFirst show ?thesis
    using value_start_wf [of "FArr [] # fs" t st'] complete_wf [of "JArr []" fs]
    by (auto split: if_splits)
next
  case (PArrNext es fs)
  assume "step st t = Some st'" "wf_token t" "wf_pstate st"
  with PArrNext show ?thesis
    using complete_wf [of "JArr es" fs] by (auto split: if_splits)
next
  case (PObjFirst fs)
  assume "step st t = Some st'" "wf_token t" "wf_pstate st"
  with PObjFirst show ?thesis
    using complete_wf [of "JObj []" fs] by (auto split: token.splits)
next
  case (PObjKey ms fs)
  assume "step st t = Some st'" "wf_token t" "wf_pstate st"
  with PObjKey show ?thesis by (auto split: token.splits)
next
  case (PObjColon ms k fs)
  assume "step st t = Some st'" "wf_token t" "wf_pstate st"
  with PObjColon show ?thesis by (auto split: if_splits)
next
  case (PObjNext ms fs)
  assume "step st t = Some st'" "wf_token t" "wf_pstate st"
  with PObjNext show ?thesis
    using complete_wf [of "JObj ms" fs] by (auto split: if_splits)
next
  case (PDone v)
  assume "step st t = Some st'"
  with PDone show ?thesis by simp
qed

lemma run_wf: "run st ts = Some st' \<Longrightarrow> list_all wf_token ts \<Longrightarrow> wf_pstate st \<Longrightarrow> wf_pstate st'"
proof (induction ts arbitrary: st)
  case Nil
  then show ?case by simp
next
  case (Cons t ts)
  then show ?case
    by (auto split: option.splits dest: step_wf)
qed

text \<open>Every value that \<open>JSON.parse\<close> returns is well formed: no object has a key twice.\<close>

theorem JSON_parse_wf: "JSON_parse t = Some v \<Longrightarrow> wf_json v"
proof -
  assume "JSON_parse t = Some v"
  then obtain ts where "lexer t = Some ts" "run (PValue []) ts = Some (PDone v)"
    by (auto simp add: JSON_parse_def split: option.splits pstate.splits)
  then show ?thesis
    using lexer_wf [of t ts] run_wf [of "PValue []" ts "PDone v"] by simp
qed

subsection \<open>Mappings of profiles\<close>

lemma wf_of_profile: "distinct (map fst p) \<Longrightarrow> wf_json (of_profile p)"
  by (simp add: of_profile_def comp_def list_all_iff)

lemma wf_of_configs: "wf_configs c \<Longrightarrow> wf_json (of_configs c)"
  by (auto simp add: of_configs_def wf_configs_def comp_def list_all_iff wf_of_profile)

lemma as_fields_of: "as_fields (map (\<lambda>f. (fst f, JStr (snd f))) p) = Some p"
  by (induction p) auto

lemma as_entries_of: "as_entries (map (\<lambda>e. (fst e, of_profile (snd e))) c) = Some c"
  by (induction c) (auto simp add: of_profile_def as_fields_of)

lemma as_configs_of_configs: "as_configs (of_configs c) = Some c"
  by (simp add: of_configs_def as_entries_of)

lemma as_fields_keys: "as_fields ms = Some p \<Longrightarrow> map fst p = map fst ms"
  by (induction ms arbitrary: p rule: as_fields.induct) auto

lemma as_entries_wf:
  "as_entries ms = Some c \<Longrightarrow> list_all (\<lambda>m. wf_json (snd m)) ms
     \<Longrightarrow> map fst c = map fst ms \<and> list_all (\<lambda>e. distinct (map fst (snd e))) c"
proof (induction ms arbitrary: c)
  case Nil
  then show ?case by simp
next
  case (Cons m ms)
  obtain n v where m: "m = (n, v)" by (cases m)
  from Cons.prems m obtain p c' where p: "as_profile v = Some p" and c': "as_entries ms = Some c'"
    and c: "c = (n, p) # c'"
    by (auto split: option.splits)
  from p obtain fs where v: "v = JObj fs" and fs: "as_fields fs = Some p"
    by (cases v) auto
  from Cons.prems(2) m v have "distinct (map fst fs)" by simp
  with fs have "distinct (map fst p)" by (simp add: as_fields_keys)
  with Cons.IH [OF c'] Cons.prems(2) c m show ?case by simp
qed

lemma as_configs_wf: "as_configs v = Some c \<Longrightarrow> wf_json v \<Longrightarrow> wf_configs c"
proof (cases v)
  case (JObj ms)
  assume "as_configs v = Some c" "wf_json v"
  with JObj show ?thesis using as_entries_wf [of ms c] by (simp add: wf_configs_def)
qed simp_all

lemma stringify_of_configs_nonempty: "JSON_stringify (of_configs c) \<noteq> []"
  by (simp add: of_configs_def)

lemma load_Inr:
  assumes "loadConfigsFromStorage s = Inr (c, s')"
  shows "s' = s\<lparr>configs := c\<rparr>" and "wf_configs c"
  using assms JSON_parse_wf as_configs_wf
  by (auto simp add: loadConfigsFromStorage_def wf_configs_def split: option.splits if_splits)

lemma load_written:
  assumes "localStorage s slot = Some (JSON_stringify (of_configs c))" and "wf_configs c"
  shows "loadConfigsFromStorage s = Inr (c, s\<lparr>configs := c\<rparr>)"
  using assms
  by (simp add: loadConfigsFromStorage_def stringify_of_configs_nonempty parse_stringify
      wf_of_configs as_configs_of_configs)

lemma stored_Inr: "stored s = Inr c \<longleftrightarrow> loadConfigsFromStorage s = Inr (c, s\<lparr>configs := c\<rparr>)"
  using load_Inr(1) [of s c] by (auto simp add: stored_def split: sum.splits)

lemma wf_update_configs:
  "wf_configs c \<Longrightarrow> distinct (map fst p) \<Longrightarrow> wf_configs (AList.update n p c)"
proof -
  assume c: "wf_configs c" and p: "distinct (map fst p)"
  have "list_all (\<lambda>e. distinct (map fst (snd e))) (AList.update n p c)"
    using c p unfolding wf_configs_def by (induction c) auto
  with c show ?thesis by (simp add: wf_configs_def distinct_update)
qed

lemma wf_delete_configs: "wf_configs c \<Longrightarrow> wf_configs (AList.delete n c)"
proof -
  assume c: "wf_configs c"
  then have "list_all (\<lambda>e. distinct (map fst (snd e))) (AList.delete n c)"
    by (auto simp add: wf_configs_def list_all_iff AList.delete_eq)
  with c show ?thesis by (simp add: wf_configs_def distinct_delete)
qed

section \<open>The handlers on a readable store\<close>

text \<open>
  When the slot is readable, the handlers do not throw, and their results are these.
\<close>

lemma stored_cong: "localStorage s' = localStorage s \<Longrightarrow> stored s' = stored s"
  by (simp add: stored_def loadConfigsFromStorage_def split: option.splits)

lemma stored_written:
  "localStorage s slot = Some (JSON_stringify (of_configs c)) \<Longrightarrow> wf_configs c \<Longrightarrow> stored s = Inr c"
  by (simp add: stored_def load_written)

lemma stored_wf: "stored s = Inr c \<Longrightarrow> wf_configs c"
  using load_Inr(2) [of s c] by (simp add: stored_Inr)

lemma save_Inr:
  assumes "configName s \<noteq> []" and "stored s = Inr c"
  shows "handleSaveConfig s =
    Inr (s\<lparr>localStorage := (localStorage s)(slot \<mapsto> JSON_stringify (of_configs
              (AList.update (configName s)
                 [(lit ''ip'', pixelIp s), (lit ''user'', pixelUser s),
                  (lit ''port'', sshPort s), (lit ''keyPath'', selectedKey s)] c))),
           configs := AList.update (configName s)
                 [(lit ''ip'', pixelIp s), (lit ''user'', pixelUser s),
                  (lit ''port'', sshPort s), (lit ''keyPath'', selectedKey s)] c,
           alerts := alerts s @ [lit ''Saved '' @ [0x27] @ configName s @ [0x27]]\<rparr>)"
  using assms by (simp add: handleSaveConfig_def stored_Inr Let_def)

lemma wf_saved:
  "wf_configs c \<Longrightarrow> wf_configs (AList.update n [(lit ''ip'', a), (lit ''user'', b), (lit ''port'', p), (lit ''keyPath'', k)] c)"
  by (rule wf_update_configs) (simp_all add: lit_def)

lemma delete_Inr:
  assumes "selectedConfig s \<noteq> []"
    and "confirm (lit ''Delete '' @ [0x27] @ selectedConfig s @ [0x27] @ lit ''?'')"
    and "stored s = Inr c"
  shows "handleDeleteConfig confirm s =
    Inr (s\<lparr>localStorage := (localStorage s)(slot \<mapsto> JSON_stringify (of_configs
              (AList.delete (selectedConfig s) c))),
           configs := AList.delete (selectedConfig s) c,
           configName := [], selectedConfig := []\<rparr>)"
  using assms by (simp add: handleDeleteConfig_def stored_Inr Let_def)

lemma load_config_Inr:
  assumes "selectedConfig s \<noteq> []" and "stored s = Inr c"
  shows "handleLoadConfig s =
    Inr (case js_get c (selectedConfig s) of
           Undefined \<Rightarrow> s\<lparr>configs := c\<rparr>
         | Own data \<Rightarrow> fill_form (selectedConfig s) data (s\<lparr>configs := c\<rparr>)
         | Inherited \<Rightarrow> fill_form (selectedConfig s) [] (s\<lparr>configs := c\<rparr>))"
  using assms by (simp add: handleLoadConfig_def stored_Inr split: property.splits)

lemma fill_form_frame [simp]:
  "localStorage (fill_form n d s) = localStorage s" "configs (fill_form n d s) = configs s"
  by (simp_all add: fill_form_def)

lemma save_Inr_stored:
  "handleSaveConfig s = Inr s1 \<Longrightarrow> configName s \<noteq> [] \<Longrightarrow> \<exists>c. stored s = Inr c"
  by (auto simp add: handleSaveConfig_def stored_def split: sum.splits)

lemma delete_Inr_stored:
  "handleDeleteConfig confirm s = Inr s1 \<Longrightarrow> s1 \<noteq> s \<Longrightarrow>
     selectedConfig s \<noteq> []
     \<and> confirm (lit ''Delete '' @ [0x27] @ selectedConfig s @ [0x27] @ lit ''?'')
     \<and> (\<exists>c. stored s = Inr c)"
  by (auto simp add: handleDeleteConfig_def stored_def split: sum.splits if_splits)

lemma load_config_Inr_stored:
  "handleLoadConfig s = Inr s1 \<Longrightarrow> selectedConfig s \<noteq> [] \<Longrightarrow> \<exists>c. stored s = Inr c"
  by (auto simp add: handleLoadConfig_def stored_def split: sum.splits)

lemma store_inv_stored: "store_inv s \<Longrightarrow> stored s = Inr c \<Longrightarrow> names_nonempty c"
  by (simp add: store_inv_def)

lemma save_preserves_inv:
  assumes "store_inv s" and "handleSaveConfig s = Inr s1"
  shows "store_inv s1"
proof (cases "configName s = []")
  case True
  with assms show ?thesis by (simp add: handleSaveConfig_def)
next
  case False
  let ?p = "[(lit ''ip'', pixelIp s), (lit ''user'', pixelUser s),
             (lit ''port'', sshPort s), (lit ''keyPath'', selectedKey s)]"
  from save_Inr_stored [OF assms(2) False] obtain c where c: "stored s = Inr c" ..
  let ?c = "AList.update (configName s) ?p c"
  from save_Inr [OF False c] assms(2) have c1: "configs s1 = ?c"
    and ls: "localStorage s1 slot = Some (JSON_stringify (of_configs ?c))"
    by auto
  have "wf_configs ?c"
    using stored_wf [OF c] by (rule wf_saved)
  with ls have st: "stored s1 = Inr ?c"
    by (simp add: stored_written)
  have "names_nonempty ?c"
    using store_inv_stored [OF assms(1) c] False
    by (auto simp add: names_nonempty_def dom_update)
  with c1 st show ?thesis by (simp add: store_inv_def)
qed

lemma delete_preserves_inv:
  assumes "store_inv s" and "handleDeleteConfig confirm s = Inr s1"
  shows "store_inv s1"
proof (cases "s1 = s")
  case True
  with assms show ?thesis by simp
next
  case False
  from delete_Inr_stored [OF assms(2) False] obtain c where sel: "selectedConfig s \<noteq> []"
    and yes: "confirm (lit ''Delete '' @ [0x27] @ selectedConfig s @ [0x27] @ lit ''?'')"
    and c: "stored s = Inr c"
    by blast
  let ?c = "AList.delete (selectedConfig s) c"
  from delete_Inr [of s confirm c] sel yes c assms(2) have c1: "configs s1 = ?c"
    and ls: "localStorage s1 slot = Some (JSON_stringify (of_configs ?c))"
    by auto
  have "wf_configs ?c"
    using stored_wf [OF c] by (rule wf_delete_configs)
  with ls have st: "stored s1 = Inr ?c"
    by (simp add: stored_written)
  have "names_nonempty ?c"
    using store_inv_stored [OF assms(1) c] dom_delete_subset [of "selectedConfig s" c]
    by (auto simp add: names_nonempty_def)
  with c1 st show ?thesis by (simp add: store_inv_def)
qed

lemma load_config_Inr_cases:
  assumes "handleLoadConfig s = Inr s1" and "selectedConfig s \<noteq> []" and "stored s = Inr c"
  shows "configs s1 = c \<and> localStorage s1 = localStorage s"
proof -
  from load_config_Inr [OF assms(2,3)] have eq: "(Inr s1 :: error + app) = Inr (case js_get c (selectedConfig s) of
           Undefined \<Rightarrow> s\<lparr>configs := c\<rparr>
         | Own data \<Rightarrow> fill_form (selectedConfig s) data (s\<lparr>configs := c\<rparr>)
         | Inherited \<Rightarrow> fill_form (selectedConfig s) [] (s\<lparr>configs := c\<rparr>))"
    unfolding assms(1) .
  show ?thesis
  proof (cases "js_get c (selectedConfig s)")
    case Undefined
    with eq have "s1 = s\<lparr>configs := c\<rparr>" by (simp only: property.case sum.inject)
    then show ?thesis by simp
  next
    case (Own data)
    with eq have "s1 = fill_form (selectedConfig s) data (s\<lparr>configs := c\<rparr>)"
      by (simp only: property.case sum.inject)
    then show ?thesis by simp
  next
    case Inherited
    with eq have "s1 = fill_form (selectedConfig s) [] (s\<lparr>configs := c\<rparr>)"
      by (simp only: property.case sum.inject)
    then show ?thesis by simp
  qed
qed

lemma load_preserves_inv:
  assumes "store_inv s" and "handleLoadConfig s = Inr s1"
  shows "store_inv s1"
proof (cases "selectedConfig s = []")
  case True
  with assms show ?thesis by (simp add: handleLoadConfig_def)
next
  case False
  from load_config_Inr_stored [OF assms(2) False] obtain c where c: "stored s = Inr c" ..
  from load_config_Inr_cases [OF assms(2) False c]
  have c1: "configs s1 = c" and ls: "localStorage s1 = localStorage s"
    by simp_all
  from c have "stored s1 = Inr c" using stored_cong [OF ls] by simp
  with c1 store_inv_stored [OF assms(1) c] show ?thesis by (simp add: store_inv_def)
qed

lemma mount_effect_Inr:
  assumes "mount_effect s = Inr s1"
  shows "s1 = s \<or> (\<exists>c. stored s = Inr c \<and> s1 = s\<lparr>configs := c\<rparr>)"
proof (cases "localStorage s slot")
  case None
  with assms show ?thesis by (simp add: mount_effect_def)
next
  case (Some saved)
  show ?thesis
  proof (cases "saved = []")
    case True
    with Some assms show ?thesis by (simp add: mount_effect_def)
  next
    case False
    with Some assms obtain v c where "JSON_parse saved = Some v" "as_configs v = Some c"
      "s1 = s\<lparr>configs := c\<rparr>"
      by (simp add: mount_effect_def split: option.splits)
    with Some False show ?thesis
      by (simp add: stored_def loadConfigsFromStorage_def)
  qed
qed

lemma mount_preserves_inv:
  assumes "store_inv s" and "mount_effect s = Inr s1"
  shows "store_inv s1"
  using mount_effect_Inr [OF assms(2)]
proof (elim disjE exE conjE)
  assume "s1 = s"
  with assms(1) show ?thesis by simp
next
  fix c
  assume c: "stored s = Inr c" and s1: "s1 = s\<lparr>configs := c\<rparr>"
  have "stored s1 = stored s" by (rule stored_cong) (simp add: s1)
  with c s1 store_inv_stored [OF assms(1) c] show ?thesis by (simp add: store_inv_def)
qed

lemma stored_store_two:
  "stored ((initial store_two)\<lparr>configName := nm, selectedConfig := sel\<rparr>)
     = Inr [(lit ''n'', []), (lit ''m'', [(lit ''ip'', lit ''x'')])]"
proof -
  have \<open>JSON_parse (lit ''{"n":{},"m":{"ip":"x"}}'')
      = Some (JObj [(lit ''n'', JObj []), (lit ''m'', JObj [(lit ''ip'', JStr (lit ''x''))])])\<close>
    by code_simp
  then show ?thesis
    by (simp add: stored_def loadConfigsFromStorage_def initial_def store_two_def lit_def)
qed

section \<open>Trimming and splitting\<close>

lemma spec_trimmed_iff:
  "spec_trimmed s t \<longleftrightarrow>
     (\<exists>l r. s = l @ t @ r \<and> list_all is_js_space l \<and> list_all is_js_space r)
     \<and> (t = [] \<or> \<not> is_js_space (hd t) \<and> \<not> is_js_space (last t))"
proof -
  have "(\<exists>l \<in> set (prefixes s). \<exists>r \<in> set (suffixes s).
           s = l @ t @ r \<and> list_all is_js_space l \<and> list_all is_js_space r)
      \<longleftrightarrow> (\<exists>l r. s = l @ t @ r \<and> list_all is_js_space l \<and> list_all is_js_space r)"
    (is "?b \<longleftrightarrow> ?u")
  proof
    assume ?b
    then show ?u by blast
  next
    assume ?u
    then obtain l r where s: "s = l @ t @ r" and ws: "list_all is_js_space l" "list_all is_js_space r"
      by blast
    from s have "l \<in> set (prefixes s)" by simp
    moreover from s have "r \<in> set (suffixes s)" by (metis append.assoc in_set_suffixes suffixI)
    ultimately show ?b using s ws by blast
  qed
  then show ?thesis by (simp add: spec_trimmed_def)
qed

text \<open>
  \<open>trim\<close> and \<open>split\<close> compute what the specification describes, and nothing else
  fits the description.
\<close>

lemma dropWhile_all: "list_all P xs \<Longrightarrow> dropWhile P xs = []"
  by (induction xs) simp_all

lemma trim_trimmed: "spec_trimmed s (trim s)"
proof -
  let ?u = "dropWhile is_js_space s"
  let ?t = "rev (dropWhile is_js_space (rev ?u))"
  let ?r = "rev (takeWhile is_js_space (rev ?u))"
  have u: "?u = ?t @ ?r"
    by (metis rev_append rev_rev_ident takeWhile_dropWhile_id)
  have "s = takeWhile is_js_space s @ ?t @ ?r"
    using u by (metis takeWhile_dropWhile_id)
  moreover have "list_all is_js_space (takeWhile is_js_space s)" "list_all is_js_space ?r"
    by (auto simp add: list_all_iff dest: set_takeWhileD)
  moreover have "\<not> is_js_space (hd ?t) \<and> \<not> is_js_space (last ?t)" if t: "?t \<noteq> []"
  proof
    from t have "?u \<noteq> []" by (metis dropWhile.simps(1) rev.simps(1))
    then have "\<not> is_js_space (hd ?u)" by (rule hd_dropWhile)
    moreover from t u have "hd ?u = hd ?t" by (metis hd_append2)
    ultimately show "\<not> is_js_space (hd ?t)" by simp
    from t have "dropWhile is_js_space (rev ?u) \<noteq> []" by simp
    then have "\<not> is_js_space (hd (dropWhile is_js_space (rev ?u)))" by (rule hd_dropWhile)
    with t show "\<not> is_js_space (last ?t)" by (simp add: last_rev)
  qed
  ultimately show ?thesis
    unfolding spec_trimmed_iff trim_def by blast
qed

lemma trim_unique: "spec_trimmed s t \<Longrightarrow> trim s = t"
proof -
  assume "spec_trimmed s t"
  then obtain l r where s: "s = l @ t @ r" and l: "list_all is_js_space l"
    and r: "list_all is_js_space r"
    and t: "t = [] \<or> \<not> is_js_space (hd t) \<and> \<not> is_js_space (last t)"
    unfolding spec_trimmed_iff by blast
  show ?thesis
  proof (cases "t = []")
    case True
    with s l r have d: "dropWhile is_js_space s = []"
      by (simp add: dropWhile_all)
    show ?thesis unfolding trim_def d True by simp
  next
    case False
    with t have h: "\<not> is_js_space (hd t)" and e: "\<not> is_js_space (last t)" by simp_all
    from False h have "dropWhile is_js_space (t @ r) = t @ r"
      by (cases t) simp_all
    with l s have u: "dropWhile is_js_space s = t @ r"
      by (simp add: dropWhile_append list_all_iff)
    from False e have "dropWhile is_js_space (rev t) = rev t"
      by (cases "rev t") (simp_all add: last_rev [symmetric] hd_rev)
    with r have "dropWhile is_js_space (rev (t @ r)) = rev t"
      by (simp add: dropWhile_append list_all_iff)
    with u show ?thesis by (simp add: trim_def)
  qed
qed

lemma split_from_nonempty: "split_from sep acc s \<noteq> []"
  by (induction s arbitrary: acc) simp_all

lemma split_from_piece:
  "sep \<notin> set p \<Longrightarrow> split_from sep acc (p @ rest) = split_from sep (rev p @ acc) rest"
  by (induction p arbitrary: acc) auto

lemma split_join:
  "ps \<noteq> [] \<Longrightarrow> list_all (\<lambda>p. sep \<notin> set p) ps \<Longrightarrow> split sep (join [sep] ps) = ps"
proof (induction ps)
  case Nil
  then show ?case by simp
next
  case (Cons x ps)
  show ?case
  proof (cases ps)
    case Nil
    with Cons.prems show ?thesis
      using split_from_piece [of sep x "[]" "[]"] by (simp add: split_def)
  next
    case (Cons y ys)
    with Cons.IH Cons.prems have "split sep (join [sep] ps) = ps" by simp
    moreover from Cons.prems have "split_from sep [] (x @ sep # join [sep] ps)
        = x # split_from sep [] (join [sep] ps)"
      using split_from_piece [of sep x "[]" "sep # join [sep] ps"] by simp
    ultimately show ?thesis using Cons by (simp add: split_def)
  qed
qed

lemma join_split_from: "join [sep] (split_from sep acc s) = rev acc @ s"
proof (induction s arbitrary: acc)
  case Nil
  show ?case by simp
next
  case (Cons c cs)
  show ?case
  proof (cases "c = sep")
    case True
    obtain q qs where "split_from sep [] cs = q # qs"
      using split_from_nonempty [of sep "[]" cs] by (cases "split_from sep [] cs") auto
    with Cons [of "[]"] True show ?thesis by simp
  next
    case False
    with Cons [of "c # acc"] show ?thesis by simp
  qed
qed

lemma split_from_pieces:
  "sep \<notin> set acc \<Longrightarrow> list_all (\<lambda>p. sep \<notin> set p) (split_from sep acc s)"
  by (induction s arbitrary: acc) simp_all

lemma lines_split: "spec_lines t (split 0x0A t)"
  using join_split_from [of "0x0A" "[]" t] split_from_pieces [of "0x0A" "[]" t]
  by (simp add: spec_lines_def split_def split_from_nonempty)

lemma lines_unique: "spec_lines t ps \<Longrightarrow> split 0x0A t = ps"
  using split_join [of ps "0x0A"] by (auto simp add: spec_lines_def)

lemma trim_spaces: "list_all is_js_space s \<Longrightarrow> trim s = []"
  by (simp add: trim_def dropWhile_all)

section \<open>Reachable states\<close>

text \<open>
  In every state that the application reaches, the slot holds the mapping that the state
  holds, no name is empty and the selected name is one of the mapping or empty: there the
  handlers do not throw, and the selected name is never read from the prototype.
\<close>

lemma stored_slot_cong: "localStorage s' slot = localStorage s slot \<Longrightarrow> stored s' = stored s"
  by (simp add: stored_def loadConfigsFromStorage_def split: option.splits)

lemma mirrored_cong:
  assumes "mirrored s" and "localStorage s' slot = localStorage s slot"
    and "configs s' = configs s" and "selectedConfig s' = selectedConfig s"
  shows "mirrored s'"
  using assms stored_slot_cong [OF assms(2)] by (simp add: mirrored_def)

lemma mount_effect_stored:
  assumes "stored s = Inr c" and "configs s = []"
  shows "mount_effect s = Inr (s\<lparr>configs := c\<rparr>)"
proof (cases "localStorage s slot")
  case None
  with assms show ?thesis
    by (simp add: mount_effect_def stored_def loadConfigsFromStorage_def)
next
  case (Some saved)
  show ?thesis
  proof (cases "saved = []")
    case True
    with Some assms show ?thesis
      by (simp add: mount_effect_def stored_def loadConfigsFromStorage_def)
  next
    case False
    with Some assms show ?thesis
      by (auto simp add: mount_effect_def stored_def loadConfigsFromStorage_def split: option.splits)
  qed
qed

lemma mirrored_start:
  assumes "stored (initial ls) = Inr c" and "names_nonempty c"
    and "mount_effect (initial ls) = Inr s"
  shows "mirrored (keys_effect s)"
proof -
  have "configs (initial ls) = []" "selectedConfig (initial ls) = []"
    by (simp_all add: initial_def)
  with mount_effect_stored [OF assms(1)] assms(3) have s: "s = (initial ls)\<lparr>configs := c\<rparr>"
    by simp
  have "stored (keys_effect s) = stored (initial ls)"
    by (rule stored_slot_cong) (simp add: s keys_effect_def)
  with assms(1,2) show ?thesis
    by (simp add: mirrored_def s keys_effect_def initial_def)
qed

lemma mirrored_save:
  assumes "mirrored s"
  shows "mirrored (or_same s (handleSaveConfig s))"
proof (cases "configName s = []")
  case True
  with assms show ?thesis by (simp add: handleSaveConfig_def or_same_def)
next
  case False
  let ?p = "[(lit ''ip'', pixelIp s), (lit ''user'', pixelUser s),
             (lit ''port'', sshPort s), (lit ''keyPath'', selectedKey s)]"
  let ?c = "AList.update (configName s) ?p (configs s)"
  from assms have st: "stored s = Inr (configs s)" by (simp add: mirrored_def)
  obtain s1 where s1: "handleSaveConfig s = Inr s1" and c1: "configs s1 = ?c"
    and ls: "localStorage s1 slot = Some (JSON_stringify (of_configs ?c))"
    and sel: "selectedConfig s1 = selectedConfig s"
    using save_Inr [OF False st] by simp
  have "wf_configs ?c"
    using stored_wf [OF st] by (rule wf_saved)
  with ls have "stored s1 = Inr ?c" by (simp add: stored_written)
  moreover have "fst ` set ?c = insert (configName s) (fst ` set (configs s))"
    by (simp add: dom_update)
  ultimately have "mirrored s1"
    using assms False c1 sel by (auto simp add: mirrored_def names_nonempty_def)
  with s1 show ?thesis by (simp add: or_same_def)
qed

lemma mirrored_delete:
  assumes "mirrored s"
  shows "mirrored (or_same s (handleDeleteConfig confirm s))"
proof (cases "selectedConfig s = []
    \<or> \<not> confirm (lit ''Delete '' @ [0x27] @ selectedConfig s @ [0x27] @ lit ''?'')")
  case True
  then have "handleDeleteConfig confirm s = Inr s"
    by (auto simp add: handleDeleteConfig_def)
  with assms show ?thesis by (simp add: or_same_def)
next
  case False
  let ?c = "AList.delete (selectedConfig s) (configs s)"
  from assms have st: "stored s = Inr (configs s)" by (simp add: mirrored_def)
  obtain s1 where s1: "handleDeleteConfig confirm s = Inr s1" and c1: "configs s1 = ?c"
    and ls: "localStorage s1 slot = Some (JSON_stringify (of_configs ?c))"
    and sel: "selectedConfig s1 = []"
    using delete_Inr [of s confirm "configs s"] False st by simp
  have "wf_configs ?c"
    using stored_wf [OF st] by (rule wf_delete_configs)
  with ls have "stored s1 = Inr ?c" by (simp add: stored_written)
  moreover have "fst ` set ?c \<subseteq> fst ` set (configs s)"
    by (rule dom_delete_subset)
  ultimately have "mirrored s1"
    using assms c1 sel by (auto simp add: mirrored_def names_nonempty_def)
  with s1 show ?thesis by (simp add: or_same_def)
qed

lemma mirrored_load:
  assumes "mirrored s"
  shows "mirrored (or_same s (handleLoadConfig s))"
proof (cases "selectedConfig s = []")
  case True
  with assms show ?thesis by (simp add: handleLoadConfig_def or_same_def)
next
  case False
  from assms have st: "stored s = Inr (configs s)" by (simp add: mirrored_def)
  have same: "s\<lparr>configs := configs s\<rparr> = s" by simp
  from load_config_Inr [OF False st]
  obtain s1 where s1: "handleLoadConfig s = Inr s1"
    and s1': "s1 = s \<or> (\<exists>d. s1 = fill_form (selectedConfig s) d s)"
    unfolding same by (cases "js_get (configs s) (selectedConfig s)") auto
  from s1' have "localStorage s1 slot = localStorage s slot" "configs s1 = configs s"
    "selectedConfig s1 = selectedConfig s"
    by (auto simp add: fill_form_def)
  with assms have "mirrored s1" by (rule mirrored_cong)
  with s1 show ?thesis by (simp add: or_same_def)
qed

lemma slot_not_themeMode: "slot \<noteq> lit ''themeMode''"
  by (simp add: slot_def lit_def)

lemma mirrored_act: "mirrored s \<Longrightarrow> offered s a \<Longrightarrow> mirrored (act a s)"
proof (cases a)
  case (SelectConfig n)
  assume "mirrored s" "offered s a"
  with SelectConfig show ?thesis
    using stored_slot_cong [of "s\<lparr>selectedConfig := n\<rparr>" s] by (simp add: mirrored_def)
next
  case PressLoad
  assume "mirrored s"
  with PressLoad show ?thesis by (simp add: mirrored_load)
next
  case PressSave
  assume "mirrored s"
  with PressSave show ?thesis by (simp add: mirrored_save)
next
  case (PressDelete answer)
  assume "mirrored s"
  with PressDelete show ?thesis by (simp add: mirrored_delete)
next
  case (ToggleTheme newMode)
  assume "mirrored s"
  then show ?thesis
    unfolding ToggleTheme
    by (rule mirrored_cong)
      (simp_all add: handleThemeChange_def slot_not_themeMode split: option.splits)
next
  case PressGenerate
  assume "mirrored s"
  then show ?thesis
    unfolding PressGenerate by (rule mirrored_cong) (simp_all add: handleGenerateInstructions_def)
next
  case (TypeSshKeyPaths v)
  assume "mirrored s"
  then show ?thesis
    unfolding TypeSshKeyPaths by (rule mirrored_cong) (simp_all add: keys_effect_def)
qed (erule mirrored_cong; simp)+

theorem reachable_mirrored: "reachable s \<Longrightarrow> mirrored s"
  by (induction rule: reachable.induct) (simp_all add: mirrored_start mirrored_act)

theorem reachable_handlers_return:
  assumes "reachable s"
  shows "\<exists>c. stored s = Inr c \<and> names_nonempty c"
    and "\<exists>s'. handleLoadConfig s = Inr s'"
    and "\<exists>s'. handleSaveConfig s = Inr s'"
    and "\<exists>s'. handleDeleteConfig confirm s = Inr s'"
    and "js_get (configs s) (selectedConfig s) \<noteq> Inherited"
proof -
  from assms have m: "mirrored s" by (rule reachable_mirrored)
  then have st: "stored s = Inr (configs s)" and ne: "names_nonempty (configs s)"
    and sel: "selectedConfig s = [] \<or> selectedConfig s \<in> fst ` set (configs s)"
    by (simp_all add: mirrored_def)
  from st ne show "\<exists>c. stored s = Inr c \<and> names_nonempty c" by blast
  show "\<exists>s'. handleLoadConfig s = Inr s'"
  proof (cases "selectedConfig s = []")
    case True
    then show ?thesis by (simp add: handleLoadConfig_def)
  next
    case False
    from load_config_Inr [OF False st] show ?thesis by blast
  qed
  show "\<exists>s'. handleSaveConfig s = Inr s'"
  proof (cases "configName s = []")
    case True
    then show ?thesis by (simp add: handleSaveConfig_def)
  next
    case False
    from save_Inr [OF False st] show ?thesis by blast
  qed
  show "\<exists>s'. handleDeleteConfig confirm s = Inr s'"
  proof (cases "selectedConfig s = []
          \<or> \<not> confirm (lit ''Delete '' @ [0x27] @ selectedConfig s @ [0x27] @ lit ''?'')")
    case True
    then have "handleDeleteConfig confirm s = Inr s"
      by (auto simp add: handleDeleteConfig_def)
    then show ?thesis by blast
  next
    case False
    with delete_Inr [of s confirm "configs s"] st show ?thesis by blast
  qed
  show "js_get (configs s) (selectedConfig s) \<noteq> Inherited"
    using sel
  proof (elim disjE)
    assume "selectedConfig s = []"
    with ne have "map_of (configs s) [] = None"
      by (simp add: names_nonempty_def map_of_eq_None_iff)
    with \<open>selectedConfig s = []\<close> show ?thesis
      by (simp add: js_get_def Object_prototype_def lit_def)
  next
    assume "selectedConfig s \<in> fst ` set (configs s)"
    then obtain v where "map_of (configs s) (selectedConfig s) = Some v"
      by (metis map_of_eq_None_iff not_Some_eq)
    then show ?thesis by (simp add: js_get_def)
  qed
qed

section \<open>The claims\<close>

subsection \<open>Loading\<close>

text \<open>
  C7. When the slot \<open>ssh-vnc-configs-mui\<close> is absent, the load operation returns the
  empty mapping and raises nothing; the effect run at mount leaves the state as it is.
\<close>

theorem load_absent_slot:
  "localStorage s slot = None \<Longrightarrow>
     loadConfigsFromStorage s = Inr ([], s\<lparr>configs := []\<rparr>) \<and> mount_effect s = Inr s"
  by (simp add: loadConfigsFromStorage_def mount_effect_def)

theorem load_absent_slot_witness:
  "localStorage (initial Map.empty) slot = None
   \<and> loadConfigsFromStorage (initial Map.empty) = Inr ([], (initial Map.empty)\<lparr>configs := []\<rparr>)
   \<and> mount_effect (initial Map.empty) = Inr (initial Map.empty)"
  using load_absent_slot [of "initial Map.empty"] by (simp add: initial_def)

text \<open>
  C1, as stated: a stored value that is not parsable as JSON makes the load operation
  return the empty mapping. It fails for the stored text \<open>{\<close>: \<open>JSON.parse\<close> throws a
  SyntaxError, and neither \<open>loadConfigsFromStorage\<close> nor the effect run at mount catches it.
\<close>

theorem unparsable_counterexample:
  "JSON_parse (lit ''{'') = None
   \<and> loadConfigsFromStorage (initial [slot \<mapsto> lit ''{'']) = Inl SyntaxError
   \<and> mount_effect (initial [slot \<mapsto> lit ''{'']) = Inl SyntaxError"
  by (simp add: loadConfigsFromStorage_def mount_effect_def initial_def JSON_parse_def lit_def
      is_json_ws_def)

text \<open>
  C1, amended: of the stored values that are not parsable as JSON, only the empty string
  is read as the empty mapping (it is falsy, and \<open>JSON.parse\<close> is not called); for every
  other one the load operation, and the effect run at mount, raise the SyntaxError of
  \<open>JSON.parse\<close> and change nothing.
\<close>

theorem load_unparsable:
  "localStorage s slot = Some saved \<Longrightarrow> JSON_parse saved = None \<Longrightarrow>
     loadConfigsFromStorage s
       = (if saved = [] then Inr ([], s\<lparr>configs := []\<rparr>) else Inl SyntaxError)
     \<and> mount_effect s = (if saved = [] then Inr s else Inl SyntaxError)"
  by (simp add: loadConfigsFromStorage_def mount_effect_def)

theorem load_unparsable_witness:
  "localStorage (initial [slot \<mapsto> lit ''{'']) slot = Some (lit ''{'')
   \<and> JSON_parse (lit ''{'') = None
   \<and> loadConfigsFromStorage (initial [slot \<mapsto> lit ''{'']) = Inl SyntaxError
   \<and> localStorage (initial [slot \<mapsto> []]) slot = Some []
   \<and> JSON_parse [] = None
   \<and> loadConfigsFromStorage (initial [slot \<mapsto> []])
       = Inr ([], (initial [slot \<mapsto> []])\<lparr>configs := []\<rparr>)"
proof -
  have a: "localStorage (initial [slot \<mapsto> lit ''{'']) slot = Some (lit ''{'')"
    and b: "localStorage (initial [slot \<mapsto> []]) slot = Some []"
    by (simp_all add: initial_def)
  have c: "JSON_parse (lit ''{'') = None" and d: "JSON_parse [] = None"
    by (simp_all add: JSON_parse_def lit_def is_json_ws_def)
  show ?thesis
    using load_unparsable [OF a c] load_unparsable [OF b d] a b c d by (simp add: lit_def)
qed

text \<open>
  C9. Loading a stored profile sets the form's port to \<open>22\<close> when the profile's \<open>port\<close>
  is absent or the empty string, and to the stored port otherwise; \<open>ip\<close>, \<open>user\<close> and
  \<open>keyPath\<close> are set to the empty string when they are absent or empty, and to the stored
  value otherwise. The name of the profile becomes the entered name.
\<close>

theorem load_defaults:
  assumes "selectedConfig s \<noteq> []" and "stored s = Inr c"
    and "map_of c (selectedConfig s) = Some data"
  shows "\<exists>s1. handleLoadConfig s = Inr s1
      \<and> configName s1 = selectedConfig s
      \<and> sshPort s1 = (case map_of data (lit ''port'') of
                         None \<Rightarrow> lit ''22''
                       | Some v \<Rightarrow> if v = [] then lit ''22'' else v)
      \<and> pixelIp s1 = (case map_of data (lit ''ip'') of None \<Rightarrow> [] | Some v \<Rightarrow> v)
      \<and> pixelUser s1 = (case map_of data (lit ''user'') of None \<Rightarrow> [] | Some v \<Rightarrow> v)
      \<and> selectedKey s1 = (case map_of data (lit ''keyPath'') of None \<Rightarrow> [] | Some v \<Rightarrow> v)"
  using assms load_config_Inr [OF assms(1,2)]
  by (simp add: js_get_def fill_form_def or_default_def split: option.splits)

theorem load_defaults_witness:
  "selectedConfig ((initial store_two)\<lparr>configName := [], selectedConfig := lit ''m''\<rparr>) \<noteq> []
   \<and> stored ((initial store_two)\<lparr>configName := [], selectedConfig := lit ''m''\<rparr>)
       = Inr [(lit ''n'', []), (lit ''m'', [(lit ''ip'', lit ''x'')])]
   \<and> map_of [(lit ''n'', []), (lit ''m'', [(lit ''ip'', lit ''x'')])] (lit ''m'')
       = Some [(lit ''ip'', lit ''x'')]
   \<and> (\<exists>s1. handleLoadConfig ((initial store_two)\<lparr>configName := [], selectedConfig := lit ''m''\<rparr>) = Inr s1
         \<and> configName s1 = lit ''m'' \<and> sshPort s1 = lit ''22'' \<and> pixelIp s1 = lit ''x''
         \<and> pixelUser s1 = [] \<and> selectedKey s1 = [])"
proof -
  let ?s = "(initial store_two)\<lparr>configName := [], selectedConfig := lit ''m''\<rparr>"
  have h1: "selectedConfig ?s \<noteq> []" by (simp add: lit_def)
  have h2: "stored ?s = Inr [(lit ''n'', []), (lit ''m'', [(lit ''ip'', lit ''x'')])]"
    by (rule stored_store_two)
  have h3: "map_of [(lit ''n'', []), (lit ''m'', [(lit ''ip'', lit ''x'')])] (selectedConfig ?s)
      = Some [(lit ''ip'', lit ''x'')]"
    by (simp add: lit_def)
  have f: "selectedConfig ?s = lit ''m''" by simp
  have g: "map_of [(lit ''ip'', lit ''x'')] (lit ''port'') = None"
    "map_of [(lit ''ip'', lit ''x'')] (lit ''ip'') = Some (lit ''x'')"
    "map_of [(lit ''ip'', lit ''x'')] (lit ''user'') = None"
    "map_of [(lit ''ip'', lit ''x'')] (lit ''keyPath'') = None"
    by (simp_all add: lit_def)
  from load_defaults [OF h1 h2 h3] obtain s1 where
    "handleLoadConfig ?s = Inr s1" "configName s1 = lit ''m''" "sshPort s1 = lit ''22''"
    "pixelIp s1 = lit ''x''" "pixelUser s1 = []" "selectedKey s1 = []"
    unfolding f g by auto
  with h1 h2 h3 show ?thesis unfolding f by blast
qed

subsection \<open>Saving and deleting\<close>

text \<open>
  C2, as stated: saving a profile under a non-empty name and loading that name gives back
  the four fields exactly, also when the port is the empty string. It fails for the empty
  port: the profile is stored with \<open>"port":""\<close>, and loading it sets the port to \<open>22\<close>.
\<close>

theorem save_then_load_counterexample:
  \<open>sshPort form_empty_port = []
   \<and> \<not> isl (handleSaveConfig form_empty_port)
   \<and> localStorage (projr (handleSaveConfig form_empty_port)) slot
       = Some (lit ''{"n":{"ip":"10.0.0.5","user":"pat","port":"","keyPath":"k"}}'')
   \<and> \<not> isl (handleLoadConfig ((projr (handleSaveConfig form_empty_port))\<lparr>selectedConfig := lit ''n''\<rparr>))
   \<and> sshPort (projr (handleLoadConfig
         ((projr (handleSaveConfig form_empty_port))\<lparr>selectedConfig := lit ''n''\<rparr>)))
       = lit ''22''
   \<and> sshPort (projr (handleLoadConfig
         ((projr (handleSaveConfig form_empty_port))\<lparr>selectedConfig := lit ''n''\<rparr>)))
       \<noteq> sshPort form_empty_port\<close>
  by code_simp

text \<open>
  C2, amended: on a readable store, saving a profile under a non-empty name succeeds, and
  loading that name afterwards, whatever the form shows by then, gives back the saved ip,
  user and key path exactly, and the saved port when it is not empty; a port saved as the
  empty string is loaded as \<open>22\<close>.
\<close>

theorem save_then_load:
  assumes "configName s \<noteq> []" and "stored s = Inr c"
  shows "\<exists>s1. handleSaveConfig s = Inr s1 \<and>
      (\<forall>s2. localStorage s2 slot = localStorage s1 slot \<and> selectedConfig s2 = configName s \<longrightarrow>
         (\<exists>s3. handleLoadConfig s2 = Inr s3
             \<and> configName s3 = configName s
             \<and> pixelIp s3 = pixelIp s
             \<and> pixelUser s3 = pixelUser s
             \<and> sshPort s3 = (if sshPort s = [] then lit ''22'' else sshPort s)
             \<and> selectedKey s3 = selectedKey s))"
proof -
  let ?p = "[(lit ''ip'', pixelIp s), (lit ''user'', pixelUser s),
             (lit ''port'', sshPort s), (lit ''keyPath'', selectedKey s)]"
  let ?c = "AList.update (configName s) ?p c"
  obtain s1 where s1: "handleSaveConfig s = Inr s1"
    and ls: "localStorage s1 slot = Some (JSON_stringify (of_configs ?c))"
    using save_Inr [OF assms] by simp
  have wf: "wf_configs ?c"
    using stored_wf [OF assms(2)] by (rule wf_saved)
  have "\<exists>s3. handleLoadConfig s2 = Inr s3
             \<and> configName s3 = configName s
             \<and> pixelIp s3 = pixelIp s
             \<and> pixelUser s3 = pixelUser s
             \<and> sshPort s3 = (if sshPort s = [] then lit ''22'' else sshPort s)
             \<and> selectedKey s3 = selectedKey s"
    if s2: "localStorage s2 slot = localStorage s1 slot" "selectedConfig s2 = configName s" for s2
  proof -
    have st: "stored s2 = Inr ?c"
      using ls wf s2(1) by (simp add: stored_written)
    have get: "js_get ?c (selectedConfig s2) = Own ?p"
      by (simp add: js_get_def s2(2) update_conv')
    show ?thesis
      using load_config_Inr [of s2 ?c] assms(1) s2(2) st get
      by (simp add: fill_form_def or_default_def lit_def)
  qed
  with s1 show ?thesis by blast
qed

theorem save_then_load_witness:
  "configName form_filled \<noteq> [] \<and> stored form_filled = Inr []
   \<and> (\<exists>s1 s3. handleSaveConfig form_filled = Inr s1
         \<and> handleLoadConfig (s1\<lparr>selectedConfig := lit ''n''\<rparr>) = Inr s3
         \<and> pixelIp s3 = lit ''10.0.0.5'' \<and> pixelUser s3 = lit ''pat''
         \<and> sshPort s3 = lit ''2222'' \<and> selectedKey s3 = lit ''k'')"
proof -
  have h1: "configName form_filled \<noteq> []"
    by (simp add: form_filled_def initial_def lit_def)
  have h2: "stored form_filled = Inr []"
    by (simp add: stored_def loadConfigsFromStorage_def form_filled_def initial_def)
  have n: "configName form_filled = lit ''n''" "pixelIp form_filled = lit ''10.0.0.5''"
    "pixelUser form_filled = lit ''pat''" "sshPort form_filled = lit ''2222''"
    "selectedKey form_filled = lit ''k''" "lit ''2222'' \<noteq> []"
    by (simp_all add: form_filled_def initial_def lit_def)
  from save_then_load [OF h1 h2] obtain s1 where a: "handleSaveConfig form_filled = Inr s1"
    and b: "\<And>s2. localStorage s2 slot = localStorage s1 slot \<and> selectedConfig s2 = configName form_filled \<Longrightarrow>
         (\<exists>s3. handleLoadConfig s2 = Inr s3
             \<and> configName s3 = configName form_filled
             \<and> pixelIp s3 = pixelIp form_filled
             \<and> pixelUser s3 = pixelUser form_filled
             \<and> sshPort s3 = (if sshPort form_filled = [] then lit ''22'' else sshPort form_filled)
             \<and> selectedKey s3 = selectedKey form_filled)"
    by blast
  from b [of "s1\<lparr>selectedConfig := lit ''n''\<rparr>"] obtain s3 where
    "handleLoadConfig (s1\<lparr>selectedConfig := lit ''n''\<rparr>) = Inr s3"
    "pixelIp s3 = lit ''10.0.0.5''" "pixelUser s3 = lit ''pat''"
    "sshPort s3 = lit ''2222''" "selectedKey s3 = lit ''k''"
    unfolding n(1-5) using n(6) by auto
  with h1 h2 a show ?thesis by blast
qed

text \<open>
  C3. On a store whose names are not empty, saving under a name that is already present
  replaces the entry of that name by the profile of the form and leaves every entry of
  another name as it was; the set of names is the same, and the slot holds the mapping
  that the state holds.
\<close>

theorem save_overwrites_one_entry:
  assumes "stored s = Inr c" and "names_nonempty c" and "configName s \<in> fst ` set c"
  shows "\<exists>s1. handleSaveConfig s = Inr s1
      \<and> stored s1 = Inr (configs s1)
      \<and> map_of (configs s1) (configName s)
          = Some [(lit ''ip'', pixelIp s), (lit ''user'', pixelUser s),
                  (lit ''port'', sshPort s), (lit ''keyPath'', selectedKey s)]
      \<and> (\<forall>n. n \<noteq> configName s \<longrightarrow> map_of (configs s1) n = map_of c n)
      \<and> fst ` set (configs s1) = fst ` set c"
proof -
  let ?p = "[(lit ''ip'', pixelIp s), (lit ''user'', pixelUser s),
             (lit ''port'', sshPort s), (lit ''keyPath'', selectedKey s)]"
  let ?c = "AList.update (configName s) ?p c"
  from assms(2,3) have name: "configName s \<noteq> []"
    unfolding names_nonempty_def by metis
  obtain s1 where s1: "handleSaveConfig s = Inr s1" and c1: "configs s1 = ?c"
    and ls: "localStorage s1 slot = Some (JSON_stringify (of_configs ?c))"
    using save_Inr [OF name assms(1)] by simp
  have "wf_configs ?c"
    using stored_wf [OF assms(1)] by (rule wf_saved)
  with ls c1 have "stored s1 = Inr (configs s1)"
    by (simp add: stored_written)
  moreover have "fst ` set ?c = fst ` set c"
    using assms(3) by (auto simp add: dom_update)
  ultimately show ?thesis
    using s1 c1 by (simp add: update_conv')
qed

theorem save_overwrites_one_entry_witness:
  "stored ((initial store_two)\<lparr>configName := lit ''n'', selectedConfig := []\<rparr>)
       = Inr [(lit ''n'', []), (lit ''m'', [(lit ''ip'', lit ''x'')])]
   \<and> names_nonempty [(lit ''n'', []), (lit ''m'', [(lit ''ip'', lit ''x'')])]
   \<and> configName ((initial store_two)\<lparr>configName := lit ''n'', selectedConfig := []\<rparr>)
       \<in> fst ` set [(lit ''n'', []), (lit ''m'', [(lit ''ip'', lit ''x'')])]
   \<and> (\<exists>s1. handleSaveConfig ((initial store_two)\<lparr>configName := lit ''n'', selectedConfig := []\<rparr>) = Inr s1
         \<and> stored s1 = Inr (configs s1)
         \<and> map_of (configs s1) (lit ''n'')
             = Some [(lit ''ip'', []), (lit ''user'', []), (lit ''port'', lit ''22''), (lit ''keyPath'', [])]
         \<and> map_of (configs s1) (lit ''m'') = Some [(lit ''ip'', lit ''x'')])"
proof -
  let ?s = "(initial store_two)\<lparr>configName := lit ''n'', selectedConfig := []\<rparr>"
  have h1: "stored ?s = Inr [(lit ''n'', []), (lit ''m'', [(lit ''ip'', lit ''x'')])]"
    by (rule stored_store_two)
  have h2: "names_nonempty [(lit ''n'', []), (lit ''m'', [(lit ''ip'', lit ''x'')])]"
    by (simp add: names_nonempty_def lit_def)
  have h3: "configName ?s \<in> fst ` set [(lit ''n'', []), (lit ''m'', [(lit ''ip'', lit ''x'')])]"
    by simp
  have f: "configName ?s = lit ''n''" "pixelIp ?s = []" "pixelUser ?s = []" "sshPort ?s = lit ''22''"
    "selectedKey ?s = []" "lit ''m'' \<noteq> lit ''n''"
    by (simp_all add: initial_def lit_def)
  from save_overwrites_one_entry [OF h1 h2 h3] obtain s1 where
    "handleSaveConfig ?s = Inr s1" "stored s1 = Inr (configs s1)"
    "map_of (configs s1) (lit ''n'')
       = Some [(lit ''ip'', []), (lit ''user'', []), (lit ''port'', lit ''22''), (lit ''keyPath'', [])]"
    "map_of (configs s1) (lit ''m'') = map_of [(lit ''n'', []), (lit ''m'', [(lit ''ip'', lit ''x'')])] (lit ''m'')"
    unfolding f(1-5) using f(6) by blast
  with h1 h2 f(6) show ?thesis unfolding f(1) by auto
qed

text \<open>
  C4. On a store whose names are not empty, deleting the selected name, once confirmed,
  removes the entry of that name and leaves every entry of another name as it was; when
  the name is not present the mapping is the one before.
\<close>

theorem delete_removes_one_entry:
  assumes "stored s = Inr c" and "names_nonempty c"
    and "confirm (lit ''Delete '' @ [0x27] @ selectedConfig s @ [0x27] @ lit ''?'')"
  shows "\<exists>s1 c1. handleDeleteConfig confirm s = Inr s1
      \<and> stored s1 = Inr c1
      \<and> map_of c1 (selectedConfig s) = None
      \<and> (\<forall>n. n \<noteq> selectedConfig s \<longrightarrow> map_of c1 n = map_of c n)
      \<and> fst ` set c1 = fst ` set c - {selectedConfig s}
      \<and> (selectedConfig s \<notin> fst ` set c \<longrightarrow> c1 = c)
      \<and> (selectedConfig s \<noteq> [] \<longrightarrow> configs s1 = c1)"
proof (cases "selectedConfig s = []")
  case True
  then have "handleDeleteConfig confirm s = Inr s"
    by (simp add: handleDeleteConfig_def)
  moreover from True assms(2) have "selectedConfig s \<notin> fst ` set c"
    by (simp add: names_nonempty_def)
  moreover from this have "map_of c (selectedConfig s) = None"
    by (simp add: map_of_eq_None_iff)
  ultimately show ?thesis
    using assms(1) True by (intro exI [of _ s] exI [of _ c]) simp
next
  case False
  let ?c = "AList.delete (selectedConfig s) c"
  obtain s1 where s1: "handleDeleteConfig confirm s = Inr s1" and c1: "configs s1 = ?c"
    and ls: "localStorage s1 slot = Some (JSON_stringify (of_configs ?c))"
    using delete_Inr [of s confirm c] False assms by simp
  have "wf_configs ?c"
    using stored_wf [OF assms(1)] by (rule wf_delete_configs)
  with ls have "stored s1 = Inr ?c"
    by (simp add: stored_written)
  moreover have "fst ` set ?c = fst ` set c - {selectedConfig s}"
    by (auto simp add: AList.delete_eq image_iff)
  ultimately show ?thesis
    using s1 c1 by (intro exI [of _ s1] exI [of _ ?c]) (simp add: delete_conv')
qed

theorem delete_removes_one_entry_witness:
  "stored ((initial store_two)\<lparr>configName := [], selectedConfig := lit ''n''\<rparr>)
       = Inr [(lit ''n'', []), (lit ''m'', [(lit ''ip'', lit ''x'')])]
   \<and> names_nonempty [(lit ''n'', []), (lit ''m'', [(lit ''ip'', lit ''x'')])]
   \<and> (\<exists>s1 c1. handleDeleteConfig (\<lambda>question. True)
               ((initial store_two)\<lparr>configName := [], selectedConfig := lit ''n''\<rparr>) = Inr s1
         \<and> stored s1 = Inr c1
         \<and> map_of c1 (lit ''n'') = None
         \<and> map_of c1 (lit ''m'') = Some [(lit ''ip'', lit ''x'')])
   \<and> stored ((initial store_two)\<lparr>configName := [], selectedConfig := lit ''z''\<rparr>)
       = Inr [(lit ''n'', []), (lit ''m'', [(lit ''ip'', lit ''x'')])]
   \<and> lit ''z'' \<notin> fst ` set [(lit ''n'', []), (lit ''m'', [(lit ''ip'', lit ''x'')])]
   \<and> (\<exists>s1. handleDeleteConfig (\<lambda>question. True)
               ((initial store_two)\<lparr>configName := [], selectedConfig := lit ''z''\<rparr>) = Inr s1
         \<and> stored s1 = Inr [(lit ''n'', []), (lit ''m'', [(lit ''ip'', lit ''x'')])])"
proof -
  let ?s = "(initial store_two)\<lparr>configName := [], selectedConfig := lit ''n''\<rparr>"
  let ?z = "(initial store_two)\<lparr>configName := [], selectedConfig := lit ''z''\<rparr>"
  let ?c = "[(lit ''n'', []), (lit ''m'', [(lit ''ip'', lit ''x'')])]"
  let ?yes = "\<lambda>question :: jsstring. True"
  have h1: "stored ?s = Inr ?c" and z1: "stored ?z = Inr ?c"
    by (rule stored_store_two)+
  have h2: "names_nonempty ?c"
    by (simp add: names_nonempty_def lit_def)
  have h3: "?yes (lit ''Delete '' @ [0x27] @ selectedConfig ?s @ [0x27] @ lit ''?'')"
    and z3: "?yes (lit ''Delete '' @ [0x27] @ selectedConfig ?z @ [0x27] @ lit ''?'')"
    by simp_all
  have f: "selectedConfig ?s = lit ''n''" "lit ''m'' \<noteq> lit ''n''"
    and g: "selectedConfig ?z = lit ''z''" "lit ''z'' \<notin> fst ` set ?c"
    by (simp_all add: lit_def)
  from delete_removes_one_entry [of ?s _ ?yes, OF h1 h2 h3] obtain s1 c1 where
    "handleDeleteConfig ?yes ?s = Inr s1" "stored s1 = Inr c1"
    "map_of c1 (lit ''n'') = None"
    "map_of c1 (lit ''m'') = map_of ?c (lit ''m'')"
    unfolding f(1) using f(2) by blast
  then have a: "\<exists>s1 c1. handleDeleteConfig ?yes ?s = Inr s1 \<and> stored s1 = Inr c1
      \<and> map_of c1 (lit ''n'') = None \<and> map_of c1 (lit ''m'') = Some [(lit ''ip'', lit ''x'')]"
    using f(2) by auto
  from delete_removes_one_entry [of ?z _ ?yes, OF z1 h2 z3] obtain s2 c2 where
    "handleDeleteConfig ?yes ?z = Inr s2" "stored s2 = Inr c2" "c2 = ?c"
    unfolding g(1) using g(2) by blast
  then have b: "\<exists>s1. handleDeleteConfig ?yes ?z = Inr s1 \<and> stored s1 = Inr ?c"
    by blast
  from a b h1 z1 h2 g(2) show ?thesis by blast
qed

text \<open>
  C8. No profile is stored under the empty name: this holds of the empty store, save
  returns at once when the entered name is empty, and save, load, delete and the effect
  run at mount keep it, for the mapping in the slot and for the mapping in the state; so
  it holds in every state that the application reaches.
\<close>

theorem names_stay_nonempty:
  "store_inv (initial Map.empty)
   \<and> (configName s = [] \<longrightarrow> handleSaveConfig s = Inr s)
   \<and> (store_inv s \<and> handleSaveConfig s = Inr s1 \<longrightarrow> store_inv s1)
   \<and> (store_inv s \<and> handleLoadConfig s = Inr s2 \<longrightarrow> store_inv s2)
   \<and> (store_inv s \<and> handleDeleteConfig confirm s = Inr s3 \<longrightarrow> store_inv s3)
   \<and> (store_inv s \<and> mount_effect s = Inr s4 \<longrightarrow> store_inv s4)
   \<and> (reachable s \<longrightarrow> store_inv s)"
proof (intro conjI impI)
  show "store_inv (initial Map.empty)"
    by (simp add: store_inv_def names_nonempty_def stored_def loadConfigsFromStorage_def initial_def)
  show "handleSaveConfig s = Inr s" if "configName s = []"
    using that by (simp add: handleSaveConfig_def)
  show "store_inv s1" if "store_inv s \<and> handleSaveConfig s = Inr s1"
    using that by (elim conjE) (rule save_preserves_inv)
  show "store_inv s2" if "store_inv s \<and> handleLoadConfig s = Inr s2"
    using that by (elim conjE) (rule load_preserves_inv)
  show "store_inv s3" if "store_inv s \<and> handleDeleteConfig confirm s = Inr s3"
    using that by (elim conjE) (rule delete_preserves_inv)
  show "store_inv s4" if "store_inv s \<and> mount_effect s = Inr s4"
    using that by (elim conjE) (rule mount_preserves_inv)
  show "store_inv s" if "reachable s"
    using reachable_mirrored [OF that] by (simp add: mirrored_def store_inv_def)
qed

theorem names_stay_nonempty_witness:
  "store_inv form_filled
   \<and> handleSaveConfig form_filled = Inr (projr (handleSaveConfig form_filled))
   \<and> store_inv (projr (handleSaveConfig form_filled))
   \<and> configName (initial Map.empty) = []
   \<and> handleSaveConfig (initial Map.empty) = Inr (initial Map.empty)
   \<and> reachable (act PressSave (act (TypeConfigName (lit ''n'')) (keys_effect (initial Map.empty))))
   \<and> store_inv (act PressSave (act (TypeConfigName (lit ''n'')) (keys_effect (initial Map.empty))))"
proof -
  have h1: "store_inv form_filled"
    by (simp add: store_inv_def names_nonempty_def stored_def loadConfigsFromStorage_def
        form_filled_def initial_def)
  have "configName form_filled \<noteq> []" "stored form_filled = Inr []"
    by (simp_all add: stored_def loadConfigsFromStorage_def form_filled_def initial_def lit_def)
  then have h2: "handleSaveConfig form_filled = Inr (projr (handleSaveConfig form_filled))"
    using save_Inr [of form_filled "[]"] by simp
  have h3: "configName (initial Map.empty) = []"
    by (simp add: initial_def)
  have "stored (initial Map.empty) = Inr []" "names_nonempty []"
    "mount_effect (initial Map.empty) = Inr (initial Map.empty)"
    by (simp_all add: stored_def loadConfigsFromStorage_def mount_effect_def names_nonempty_def
        initial_def)
  then have "reachable (keys_effect (initial Map.empty))"
    by (rule reachable.start)
  then have "reachable (act (TypeConfigName (lit ''n'')) (keys_effect (initial Map.empty)))"
    by (rule reachable.step) simp
  then have h4: "reachable (act PressSave (act (TypeConfigName (lit ''n'')) (keys_effect (initial Map.empty))))"
    by (rule reachable.step) simp
  from names_stay_nonempty [of form_filled "projr (handleSaveConfig form_filled)"] h1 h2
  have "store_inv (projr (handleSaveConfig form_filled))" by blast
  moreover from names_stay_nonempty [of "initial Map.empty"] h3
  have "handleSaveConfig (initial Map.empty) = Inr (initial Map.empty)" by blast
  moreover from names_stay_nonempty
    [of "act PressSave (act (TypeConfigName (lit ''n'')) (keys_effect (initial Map.empty)))"] h4
  have "store_inv (act PressSave (act (TypeConfigName (lit ''n'')) (keys_effect (initial Map.empty))))"
    by blast
  ultimately show ?thesis using h1 h2 h3 h4 by blast
qed

subsection \<open>The instructions generator\<close>

text \<open>
  C5. For ip \<open>10.0.0.5\<close>, user \<open>pat\<close>, port \<open>22\<close> and key path
  \<open>/home/pat/.ssh/id_ed25519\<close> the generated instructions contain the texts
  \<open>cat /home/pat/.ssh/id_ed25519.pub\<close> and \<open>ssh-keygen -R 10.0.0.5\<close>: they are the first
  and the third code block.
\<close>

theorem generate_example:
  "\<exists>m. modalContent (handleGenerateInstructions
            (s\<lparr>pixelIp := lit ''10.0.0.5'', pixelUser := lit ''pat'', sshPort := lit ''22'',
               selectedKey := lit ''/home/pat/.ssh/id_ed25519''\<rparr>)) = Some m
        \<and> sublist (lit ''cat /home/pat/.ssh/id_ed25519.pub'') (publicKeyPath m)
        \<and> sublist (lit ''ssh-keygen -R 10.0.0.5'') (removeHostKeyCommand m)"
  by (simp add: handleGenerateInstructions_def lit_def)

text \<open>
  C6. When one of the four fields is the empty string the generator returns at once: the
  state is unchanged, so no instructions are produced, the modal is not opened and
  nothing is reported.
\<close>

theorem generate_skipped_on_empty_field:
  "pixelIp s = [] \<or> pixelUser s = [] \<or> sshPort s = [] \<or> selectedKey s = [] \<Longrightarrow>
     handleGenerateInstructions s = s"
  by (simp add: handleGenerateInstructions_def)

theorem generate_skipped_on_empty_field_witness:
  "pixelIp (initial Map.empty) = []
   \<and> handleGenerateInstructions (initial Map.empty) = initial Map.empty"
  using generate_skipped_on_empty_field [of "initial Map.empty"] by (simp add: initial_def)

subsection \<open>The list of available keys\<close>

text \<open>
  C10. The derived list of available keys is the list of the lines of the trimmed
  key-paths text without the empty lines: the trimmed text and its lines exist, they are
  unique, and the effect computes this list from them. A text of white space only gives
  the empty list.
\<close>

theorem available_keys_are_lines:
  "(\<exists>t ps. spec_trimmed (sshKeyPaths s) t \<and> spec_lines t ps
        \<and> availableKeys (keys_effect s) = filter (\<lambda>p. p \<noteq> []) ps)
   \<and> (\<forall>t ps. spec_trimmed (sshKeyPaths s) t \<and> spec_lines t ps
        \<longrightarrow> availableKeys (keys_effect s) = filter (\<lambda>p. p \<noteq> []) ps)
   \<and> (list_all is_js_space (sshKeyPaths s) \<longrightarrow> availableKeys (keys_effect s) = [])"
proof (intro conjI allI impI)
  have k: "availableKeys (keys_effect s) = filter (\<lambda>p. p \<noteq> []) (split 0x0A (trim (sshKeyPaths s)))"
    by (simp add: keys_effect_def)
  with trim_trimmed [of "sshKeyPaths s"] lines_split [of "trim (sshKeyPaths s)"]
  show "\<exists>t ps. spec_trimmed (sshKeyPaths s) t \<and> spec_lines t ps
        \<and> availableKeys (keys_effect s) = filter (\<lambda>p. p \<noteq> []) ps"
    by blast
  show "availableKeys (keys_effect s) = filter (\<lambda>p. p \<noteq> []) ps"
    if "spec_trimmed (sshKeyPaths s) t \<and> spec_lines t ps" for t ps
    using that k trim_unique [of "sshKeyPaths s" t] lines_unique [of t ps] by simp
  show "availableKeys (keys_effect s) = []" if "list_all is_js_space (sshKeyPaths s)"
    using that k by (simp add: trim_spaces split_def)
qed

theorem available_keys_are_lines_witness:
  "spec_trimmed (lit '' /a/b  \<newline>\<newline>/c/d \<newline>'') (lit ''/a/b  \<newline>\<newline>/c/d'')
   \<and> spec_lines (lit ''/a/b  \<newline>\<newline>/c/d'') [lit ''/a/b  '', [], lit ''/c/d'']
   \<and> availableKeys (keys_effect ((initial Map.empty)\<lparr>sshKeyPaths := lit '' /a/b  \<newline>\<newline>/c/d \<newline>''\<rparr>))
       = [lit ''/a/b  '', lit ''/c/d'']
   \<and> list_all is_js_space (lit '' \<newline>  '')
   \<and> availableKeys (keys_effect ((initial Map.empty)\<lparr>sshKeyPaths := lit '' \<newline>  ''\<rparr>)) = []"
proof -
  let ?i = "lit '' /a/b  \<newline>\<newline>/c/d \<newline>''"
  let ?t = "lit ''/a/b  \<newline>\<newline>/c/d''"
  let ?ps = "[lit ''/a/b  '', [], lit ''/c/d'']"
  have "?i = lit '' '' @ ?t @ lit '' \<newline>''" "list_all is_js_space (lit '' '')"
    "list_all is_js_space (lit '' \<newline>'')"
    by (simp_all add: lit_def is_js_space_def)
  moreover have "\<not> is_js_space (hd ?t) \<and> \<not> is_js_space (last ?t)"
    by (simp add: lit_def is_js_space_def)
  ultimately have h1: "spec_trimmed ?i ?t"
    unfolding spec_trimmed_iff by blast
  have h2: "spec_lines ?t ?ps"
    by (simp add: spec_lines_def lit_def)
  have h3: "list_all is_js_space (lit '' \<newline>  '')"
    by (simp add: lit_def is_js_space_def)
  have s: "sshKeyPaths ((initial Map.empty)\<lparr>sshKeyPaths := ?i\<rparr>) = ?i"
    "sshKeyPaths ((initial Map.empty)\<lparr>sshKeyPaths := lit '' \<newline>  ''\<rparr>) = lit '' \<newline>  ''"
    by simp_all
  have f: "filter (\<lambda>p. p \<noteq> []) ?ps = [lit ''/a/b  '', lit ''/c/d'']"
    by (simp add: lit_def)
  from available_keys_are_lines [of "(initial Map.empty)\<lparr>sshKeyPaths := ?i\<rparr>"] h1 h2
  have "availableKeys (keys_effect ((initial Map.empty)\<lparr>sshKeyPaths := ?i\<rparr>))
      = filter (\<lambda>p. p \<noteq> []) ?ps"
    unfolding s by blast
  moreover from available_keys_are_lines [of "(initial Map.empty)\<lparr>sshKeyPaths := lit '' \<newline>  ''\<rparr>"] h3
  have "availableKeys (keys_effect ((initial Map.empty)\<lparr>sshKeyPaths := lit '' \<newline>  ''\<rparr>)) = []"
    unfolding s by blast
  ultimately show ?thesis using h1 h2 h3 unfolding f by blast
qed

end
